theory Spec2Isabelle
  imports Complex_Main "HOL-Library.Sublist" "HOL-Library.Log_Nat"
begin

section \<open>Format classifier (audio.cpp, isMP3File)\<close>

text \<open>
  \<^verbatim>\<open>isMP3File\<close> is \<^verbatim>\<open>std::regex_match(filename, std::regex(".*\\.[mM][pP]3$"))\<close>.
  The pattern is an ECMAScript regular expression; it is embedded as the sequence of its
  atoms. In the ECMAScript grammar of \<^verbatim>\<open>std::regex\<close> the atom \<^verbatim>\<open>.\<close> matches every
  character except the line terminators LF and CR, and \<^verbatim>\<open>regex_match\<close> succeeds only when
  the whole string is matched.
\<close>

datatype atom =
    AnyStar
  | Lit char
  | OneOf "char list"
  | Eol

fun dot_matches :: "char \<Rightarrow> bool" where
  "dot_matches c = (c \<noteq> CHR 0x0A \<and> c \<noteq> CHR 0x0D)"

fun regex_match :: "atom list \<Rightarrow> string \<Rightarrow> bool" where
  "regex_match [] s = (s = [])"
| "regex_match (AnyStar # r) [] = regex_match r []"
| "regex_match (AnyStar # r) (c # cs) =
     (regex_match r (c # cs) \<or> (dot_matches c \<and> regex_match (AnyStar # r) cs))"
| "regex_match (Lit a # r) [] = False"
| "regex_match (Lit a # r) (c # cs) = (c = a \<and> regex_match r cs)"
| "regex_match (OneOf as # r) [] = False"
| "regex_match (OneOf as # r) (c # cs) = (c \<in> set as \<and> regex_match r cs)"
| "regex_match (Eol # r) s = (s = [] \<and> regex_match r [])"

definition mp3Pattern :: "atom list" where
  "mp3Pattern = [AnyStar, Lit CHR ''.'', OneOf ''mM'', OneOf ''pP'', Lit CHR ''3'', Eol]"

definition isMP3File :: "string \<Rightarrow> bool" where
  "isMP3File filename = regex_match mp3Pattern filename"

text \<open>The two format families of the specification.\<close>

datatype family = FrameCoded | SampleCoded

definition classify :: "string \<Rightarrow> family" where
  "classify filename = (if isMP3File filename then FrameCoded else SampleCoded)"

text \<open>
  The specification's wording, kept apart from the code: a name ends in \<^verbatim>\<open>.mp3\<close>
  case-insensitively when its last four characters are a dot, m or M, p or P, and 3.
\<close>

definition ends_with_mp3_ci :: "string \<Rightarrow> bool" where
  "ends_with_mp3_ci s =
     (4 \<le> length s \<and>
      (case drop (length s - 4) s of
         [d, a, b, t] \<Rightarrow> d = CHR ''.'' \<and> a \<in> set ''mM'' \<and> b \<in> set ''pP'' \<and> t = CHR ''3''
       | _ \<Rightarrow> False))"

section \<open>The circular playlist (link.h, link.cpp)\<close>

text \<open>
  The nodes of a playlist live on the free store and point at each other, so the store is
  explicit: a partial map from addresses to nodes. A pointer is an optional address,
  \<open>None\<close> being \<^verbatim>\<open>nullptr\<close>. \<^verbatim>\<open>new\<close> hands out the address \<open>brk\<close> and never reuses one;
  \<^verbatim>\<open>delete\<close> removes the cell. Reading or writing through a null or released pointer and
  releasing a cell twice are undefined behaviour in C++; the model returns them as errors.
  The record \<open>LinkedList\<close> holds the four fields of the class together with the store its
  nodes live in. \<^verbatim>\<open>len\<close> and the positions are C++ \<^verbatim>\<open>int\<close>s; they are modelled as
  unbounded integers (they count allocated nodes, far below \<open>2^31\<close>).
\<close>

type_synonym addr = nat
type_synonym ptr = "addr option"

record node =
  song :: string
  artist :: string
  nextp :: ptr

datatype error = NullDeref | UseAfterFree | DoubleFree | IntOverflow

type_synonym store = "addr \<Rightarrow> node option"

record LinkedList =
  heap :: store
  brk :: addr
  head :: ptr
  listName :: string
  len :: int
  taken :: bool

text \<open>A computation may fail with undefined behaviour (\<open>Inl\<close>) or not return (\<open>None\<close>).\<close>

type_synonym 'a res = "(error + 'a) option"

definition LinkedList_new :: "LinkedList" where
  "LinkedList_new =
     \<lparr>heap = (\<lambda>a. None), brk = 0, head = None, listName = [], len = 0, taken = False\<rparr>"

definition deref :: "store \<Rightarrow> ptr \<Rightarrow> error + node" where
  "deref h p =
     (case p of
        None \<Rightarrow> Inl NullDeref
      | Some a \<Rightarrow> (case h a of None \<Rightarrow> Inl UseAfterFree | Some nd \<Rightarrow> Inr nd))"

definition set_next :: "store \<Rightarrow> ptr \<Rightarrow> ptr \<Rightarrow> error + store" where
  "set_next h p q =
     (case p of
        None \<Rightarrow> Inl NullDeref
      | Some a \<Rightarrow>
          (case h a of
             None \<Rightarrow> Inl UseAfterFree
           | Some nd \<Rightarrow> Inr (h(a := Some (nd\<lparr>nextp := q\<rparr>)))))"

definition delete_node :: "store \<Rightarrow> ptr \<Rightarrow> error + store" where
  "delete_node h p =
     (case p of
        None \<Rightarrow> Inr h
      | Some a \<Rightarrow> (case h a of None \<Rightarrow> Inl DoubleFree | Some nd \<Rightarrow> Inr (h(a := None))))"

definition new_node :: "string \<Rightarrow> string \<Rightarrow> LinkedList \<Rightarrow> ptr \<times> LinkedList" where
  "new_node s a l =
     (Some (brk l),
      l\<lparr>heap := (heap l)(brk l := Some \<lparr>song = s, artist = a, nextp = None\<rparr>),
        brk := Suc (brk l)\<rparr>)"

text \<open>
  \<^verbatim>\<open>while (last->next != head) last = last->next;\<close> as it stands in \<^verbatim>\<open>add_beg\<close>,
  \<^verbatim>\<open>add_end\<close> and \<^verbatim>\<open>del_beg\<close>. On a store whose chain never comes back to \<open>head\<close> the
  loop does not return.
\<close>

partial_function (option) find_last :: "store \<Rightarrow> ptr \<Rightarrow> ptr \<Rightarrow> (error + ptr) option" where
  "find_last h hp lastp =
     (case deref h lastp of
        Inl e \<Rightarrow> Some (Inl e)
      | Inr nd \<Rightarrow> if nextp nd \<noteq> hp then find_last h hp (nextp nd) else Some (Inr lastp))"

definition add_beg :: "string \<Rightarrow> string \<Rightarrow> LinkedList \<Rightarrow> LinkedList res" where
  "add_beg s a l0 =
     (let (newNode, l) = new_node s a l0 in
      if head l = None then
        (case set_next (heap l) newNode newNode of
           Inl e \<Rightarrow> Some (Inl e)
         | Inr h1 \<Rightarrow> Some (Inr (l\<lparr>heap := h1, head := newNode, len := len l + 1\<rparr>)))
      else
        (case find_last (heap l) (head l) (head l) of
           None \<Rightarrow> None
         | Some (Inl e) \<Rightarrow> Some (Inl e)
         | Some (Inr lastp) \<Rightarrow>
             (case set_next (heap l) newNode (head l) of
                Inl e \<Rightarrow> Some (Inl e)
              | Inr h1 \<Rightarrow>
                  (case set_next h1 lastp newNode of
                     Inl e \<Rightarrow> Some (Inl e)
                   | Inr h2 \<Rightarrow> Some (Inr (l\<lparr>heap := h2, head := newNode, len := len l + 1\<rparr>))))))"

definition add_end :: "string \<Rightarrow> string \<Rightarrow> LinkedList \<Rightarrow> LinkedList res" where
  "add_end s a l0 =
     (let (newNode, l) = new_node s a l0 in
      if head l = None then
        (case set_next (heap l) newNode newNode of
           Inl e \<Rightarrow> Some (Inl e)
         | Inr h1 \<Rightarrow> Some (Inr (l\<lparr>heap := h1, head := newNode, len := len l + 1\<rparr>)))
      else
        (case find_last (heap l) (head l) (head l) of
           None \<Rightarrow> None
         | Some (Inl e) \<Rightarrow> Some (Inl e)
         | Some (Inr temp) \<Rightarrow>
             (case set_next (heap l) temp newNode of
                Inl e \<Rightarrow> Some (Inl e)
              | Inr h1 \<Rightarrow>
                  (case set_next h1 newNode (head l) of
                     Inl e \<Rightarrow> Some (Inl e)
                   | Inr h2 \<Rightarrow> Some (Inr (l\<lparr>heap := h2, len := len l + 1\<rparr>))))))"

text \<open>
  The loop of the middle case of \<^verbatim>\<open>add_at\<close>:
  \<^verbatim>\<open>for (int i = 1; i < pos - 1; ++i) { if (temp->next == head) break; temp = temp->next; }\<close>
\<close>

function add_at_loop :: "store \<Rightarrow> ptr \<Rightarrow> int \<Rightarrow> int \<Rightarrow> ptr \<Rightarrow> error + ptr" where
  "add_at_loop h hp pos i temp =
     (if i < pos - 1 then
        (case deref h temp of
           Inl e \<Rightarrow> Inl e
         | Inr nd \<Rightarrow> if nextp nd = hp then Inr temp else add_at_loop h hp pos (i + 1) (nextp nd))
      else Inr temp)"
  by pat_completeness auto
termination
  by (relation "measure (\<lambda>(h, hp, pos, i, temp). nat (pos - 1 - i))") auto

declare add_at_loop.simps [simp del]

definition add_at :: "string \<Rightarrow> string \<Rightarrow> int \<Rightarrow> LinkedList \<Rightarrow> LinkedList res" where
  "add_at s a pos l0 =
     (if pos < 1 \<or> pos > len l0 + 1 then Some (Inr l0)
      else if pos = 1 then add_beg s a l0
      else if pos = len l0 + 1 then add_end s a l0
      else
        (let (newNode, l) = new_node s a l0 in
         case add_at_loop (heap l) (head l) pos 1 (head l) of
           Inl e \<Rightarrow> Some (Inl e)
         | Inr temp \<Rightarrow>
             (case deref (heap l) temp of
                Inl e \<Rightarrow> Some (Inl e)
              | Inr nd \<Rightarrow>
                  (case set_next (heap l) newNode (nextp nd) of
                     Inl e \<Rightarrow> Some (Inl e)
                   | Inr h1 \<Rightarrow>
                       (case set_next h1 temp newNode of
                          Inl e \<Rightarrow> Some (Inl e)
                        | Inr h2 \<Rightarrow> Some (Inr (l\<lparr>heap := h2, len := len l + 1\<rparr>)))))))"

definition del_beg :: "LinkedList \<Rightarrow> LinkedList res" where
  "del_beg l0 =
     (if head l0 = None then Some (Inr l0)
      else
        (let l = l0\<lparr>len := len l0 - 1\<rparr> in
         case deref (heap l) (head l) of
           Inl e \<Rightarrow> Some (Inl e)
         | Inr hn \<Rightarrow>
             if nextp hn = head l then
               (case delete_node (heap l) (head l) of
                  Inl e \<Rightarrow> Some (Inl e)
                | Inr h1 \<Rightarrow> Some (Inr (l\<lparr>heap := h1, head := None\<rparr>)))
             else
               (case find_last (heap l) (head l) (head l) of
                  None \<Rightarrow> None
                | Some (Inl e) \<Rightarrow> Some (Inl e)
                | Some (Inr lastp) \<Rightarrow>
                    (let temp = head l; head' = nextp hn in
                     case set_next (heap l) lastp head' of
                       Inl e \<Rightarrow> Some (Inl e)
                     | Inr h1 \<Rightarrow>
                         (case delete_node h1 temp of
                            Inl e \<Rightarrow> Some (Inl e)
                          | Inr h2 \<Rightarrow> Some (Inr (l\<lparr>heap := h2, head := head'\<rparr>)))))))"

text \<open>
  The loop of \<^verbatim>\<open>del_end\<close>:
  \<^verbatim>\<open>while (temp->next != head) { follow = temp; temp = temp->next; }\<close>
\<close>

partial_function (option) del_end_loop ::
  "store \<Rightarrow> ptr \<Rightarrow> ptr \<Rightarrow> ptr \<Rightarrow> (error + ptr \<times> ptr) option" where
  "del_end_loop h hp follow temp =
     (case deref h temp of
        Inl e \<Rightarrow> Some (Inl e)
      | Inr nd \<Rightarrow>
          if nextp nd \<noteq> hp then del_end_loop h hp temp (nextp nd)
          else Some (Inr (follow, temp)))"

definition del_end :: "LinkedList \<Rightarrow> LinkedList res" where
  "del_end l0 =
     (if head l0 = None then Some (Inr l0)
      else
        (let l = l0\<lparr>len := len l0 - 1\<rparr> in
         case deref (heap l) (head l) of
           Inl e \<Rightarrow> Some (Inl e)
         | Inr hn \<Rightarrow>
             if nextp hn = head l then
               (case delete_node (heap l) (head l) of
                  Inl e \<Rightarrow> Some (Inl e)
                | Inr h1 \<Rightarrow> Some (Inr (l\<lparr>heap := h1, head := None\<rparr>)))
             else
               (case del_end_loop (heap l) (head l) None (head l) of
                  None \<Rightarrow> None
                | Some (Inl e) \<Rightarrow> Some (Inl e)
                | Some (Inr (follow, temp)) \<Rightarrow>
                    (case set_next (heap l) follow (head l) of
                       Inl e \<Rightarrow> Some (Inl e)
                     | Inr h1 \<Rightarrow>
                         (case delete_node h1 temp of
                            Inl e \<Rightarrow> Some (Inl e)
                          | Inr h2 \<Rightarrow> Some (Inr (l\<lparr>heap := h2\<rparr>)))))))"

text \<open>
  The loop of the middle case of \<^verbatim>\<open>del_at\<close>:
  \<^verbatim>\<open>for (int i = 1; i < pos; ++i) { if (temp->next == head) break; follow = temp; temp = temp->next; }\<close>
\<close>

function del_at_loop ::
  "store \<Rightarrow> ptr \<Rightarrow> int \<Rightarrow> int \<Rightarrow> ptr \<Rightarrow> ptr \<Rightarrow> error + ptr \<times> ptr" where
  "del_at_loop h hp pos i follow temp =
     (if i < pos then
        (case deref h temp of
           Inl e \<Rightarrow> Inl e
         | Inr nd \<Rightarrow>
             if nextp nd = hp then Inr (follow, temp)
             else del_at_loop h hp pos (i + 1) temp (nextp nd))
      else Inr (follow, temp))"
  by pat_completeness auto
termination
  by (relation "measure (\<lambda>(h, hp, pos, i, follow, temp). nat (pos - i))") auto

declare del_at_loop.simps [simp del]

definition del_at :: "int \<Rightarrow> LinkedList \<Rightarrow> LinkedList res" where
  "del_at pos l =
     (if head l = None then Some (Inr l)
      else if pos < 1 \<or> pos > len l then Some (Inr l)
      else if pos = 1 then del_beg l
      else if pos = len l then del_end l
      else
        (case del_at_loop (heap l) (head l) pos 1 None (head l) of
           Inl e \<Rightarrow> Some (Inl e)
         | Inr (follow, temp) \<Rightarrow>
             (case deref (heap l) temp of
                Inl e \<Rightarrow> Some (Inl e)
              | Inr nd \<Rightarrow>
                  (case set_next (heap l) follow (nextp nd) of
                     Inl e \<Rightarrow> Some (Inl e)
                   | Inr h1 \<Rightarrow>
                       (case delete_node h1 temp of
                          Inl e \<Rightarrow> Some (Inl e)
                        | Inr h2 \<Rightarrow> Some (Inr (l\<lparr>heap := h2, len := len l - 1\<rparr>)))))))"

text \<open>
  The loop of \<^verbatim>\<open>clear\<close>:
  \<^verbatim>\<open>while (current != nullptr) { nodeToDelete = current; current = current->next; delete nodeToDelete; }\<close>
\<close>

partial_function (option) clear_loop :: "store \<Rightarrow> ptr \<Rightarrow> (error + store) option" where
  "clear_loop h current =
     (if current \<noteq> None then
        (case deref h current of
           Inl e \<Rightarrow> Some (Inl e)
         | Inr nd \<Rightarrow>
             (case delete_node h current of
                Inl e \<Rightarrow> Some (Inl e)
              | Inr h1 \<Rightarrow> clear_loop h1 (nextp nd)))
      else Some (Inr h))"

definition clear :: "LinkedList \<Rightarrow> LinkedList res" where
  "clear l =
     (if head l = None then Some (Inr l)
      else
        (case deref (heap l) (head l) of
           Inl e \<Rightarrow> Some (Inl e)
         | Inr hn \<Rightarrow>
             if nextp hn = None then
               (case delete_node (heap l) (head l) of
                  Inl e \<Rightarrow> Some (Inl e)
                | Inr h1 \<Rightarrow> Some (Inr (l\<lparr>heap := h1, head := None, len := 0\<rparr>)))
             else
               (let current = nextp hn in
                case set_next (heap l) (head l) None of
                  Inl e \<Rightarrow> Some (Inl e)
                | Inr h1 \<Rightarrow>
                    (case clear_loop h1 current of
                       None \<Rightarrow> None
                     | Some (Inl e) \<Rightarrow> Some (Inl e)
                     | Some (Inr h2) \<Rightarrow>
                         (case delete_node h2 (head l) of
                            Inl e \<Rightarrow> Some (Inl e)
                          | Inr h3 \<Rightarrow> Some (Inr (l\<lparr>heap := h3, head := None, len := 0\<rparr>)))))))"

text \<open>A sequence of calls on one list; it stops at the first call that fails.\<close>

datatype list_op =
    Add_beg string string
  | Add_end string string
  | Add_at string string int
  | Del_beg
  | Del_end
  | Del_at int
  | Clear

fun apply_op :: "list_op \<Rightarrow> LinkedList \<Rightarrow> LinkedList res" where
  "apply_op (Add_beg s a) l = add_beg s a l"
| "apply_op (Add_end s a) l = add_end s a l"
| "apply_op (Add_at s a pos) l = add_at s a pos l"
| "apply_op Del_beg l = del_beg l"
| "apply_op Del_end l = del_end l"
| "apply_op (Del_at pos) l = del_at pos l"
| "apply_op Clear l = clear l"

fun run_ops :: "list_op list \<Rightarrow> LinkedList \<Rightarrow> LinkedList res" where
  "run_ops [] l = Some (Inr l)"
| "run_ops (x # xs) l =
     (case apply_op x l of
        None \<Rightarrow> None
      | Some (Inl e) \<Rightarrow> Some (Inl e)
      | Some (Inr l') \<Rightarrow> run_ops xs l')"

text \<open>
  The shape the class promises: the nodes \<open>as\<close>, in order from \<open>head\<close>, are distinct live
  cells, each pointing at the next and the last one back at the first.
\<close>

fun path :: "store \<Rightarrow> ptr \<Rightarrow> addr list \<Rightarrow> ptr \<Rightarrow> bool" where
  "path h p [] q = (p = q)"
| "path h p (a # as) q =
     (p = Some a \<and> (case h a of None \<Rightarrow> False | Some nd \<Rightarrow> path h (nextp nd) as q))"

text \<open>Following \<^verbatim>\<open>next\<close> \<open>n\<close> times; \<open>None\<close> when the walk leaves the live cells.\<close>

fun follow_next :: "store \<Rightarrow> nat \<Rightarrow> ptr \<Rightarrow> ptr" where
  "follow_next h 0 p = p"
| "follow_next h (Suc n) p =
     (case p of
        None \<Rightarrow> None
      | Some a \<Rightarrow> (case h a of None \<Rightarrow> None | Some nd \<Rightarrow> follow_next h n (nextp nd)))"

text \<open>The first \<open>n\<close> cells met from \<open>p\<close>.\<close>

fun cells_from :: "store \<Rightarrow> nat \<Rightarrow> ptr \<Rightarrow> addr list" where
  "cells_from h 0 p = []"
| "cells_from h (Suc n) p =
     (case p of
        None \<Rightarrow> []
      | Some a \<Rightarrow> (case h a of None \<Rightarrow> [] | Some nd \<Rightarrow> a # cells_from h n (nextp nd)))"

definition circular :: "LinkedList \<Rightarrow> bool" where
  "circular l =
     (head l \<noteq> None \<and> 0 < len l \<and>
      follow_next (heap l) (nat (len l)) (head l) = head l \<and>
      length (cells_from (heap l) (nat (len l)) (head l)) = nat (len l) \<and>
      distinct (cells_from (heap l) (nat (len l)) (head l)))"

definition list_inv :: "LinkedList \<Rightarrow> bool" where
  "list_inv l = ((head l = None \<and> len l = 0) \<or> circular l)"


text \<open>
  The abstraction used in the proofs: \<open>clist l as\<close> says that the list \<open>l\<close> consists of
  exactly the cells \<open>as\<close>, in this order from \<open>head\<close>, closed into a ring, and that no
  cell at or above \<open>brk\<close> is in use.
\<close>

definition clist :: "LinkedList \<Rightarrow> addr list \<Rightarrow> bool" where
  "clist l as \<longleftrightarrow>
     distinct as \<and> len l = int (length as) \<and> (\<forall>a. brk l \<le> a \<longrightarrow> heap l a = None) \<and>
     (if as = [] then head l = None
      else head l = Some (hd as) \<and> path (heap l) (Some (hd as)) as (Some (hd as)))"

declare find_last.simps [code] del_end_loop.simps [code] clear_loop.simps [code]

section \<open>One playback session (audio.cpp, player and playerWithControls)\<close>

text \<open>
  A session talks to the terminal, to a decoder library (mpg123 for frame-coded files,
  libsndfile for sample-coded ones) and to the PulseAudio output stream. None of them is
  code of this program, so what they answer is an input of the model: \<open>open_env\<close> holds
  the answers of the calls made once, and the loop consumes one \<open>step_env\<close> per
  iteration. A loop that is still running when the list of \<open>step_env\<close>s is used up has
  not returned (\<open>None\<close>). What the session does to the outside is kept in \<open>world\<close>: the
  terminal settings, the flags of standard input, the state of every handle, and the
  trace of the calls that matter for playback.

  Console text other than the progress indicator is left out. \<^verbatim>\<open>off_t\<close>, \<^verbatim>\<open>long\<close> and
  \<^verbatim>\<open>sf_count_t\<close> are 64-bit; frame positions and \<open>10 * rate\<close> stay far below that range
  and are modelled as unbounded integers. The terminal calls are taken to succeed
  (standard input is a terminal).
\<close>

record termios =
  icanon :: bool
  echo :: bool
  vmin :: nat
  vtime :: nat
  other_settings :: nat

record fdflags =
  o_nonblock :: bool
  other_flags :: nat

text \<open>
  A handle is \<open>Absent\<close> until it is created, \<open>Live\<close> until it is released, \<open>Released\<close>
  after exactly one release, and \<open>Broken\<close> after anything else (a second release, a
  release of a handle that was never created, a second creation).
\<close>

datatype hstate = Absent | Live | Released | Broken

fun acquire :: "hstate \<Rightarrow> hstate" where
  "acquire Absent = Live"
| "acquire h = Broken"

fun release :: "hstate \<Rightarrow> hstate" where
  "release Live = Released"
| "release h = Broken"

datatype whence = SEEK_SET | SEEK_CUR

datatype event =
    Kbhit
  | Getch char
  | Usleep nat
  | Mpg123_read
  | Mpg123_getformat
  | Mpg123_framepos
  | Mpg123_seek_frame int whence
  | Sf_readf_short
  | Sf_seek int whence
  | Pa_simple_write
  | Pa_simple_drain
  | Progress_bar int int
  | Duration_unknown

record world =
  tty :: termios
  stdin_flags :: fdflags
  mpg123_lib :: hstate
  mh :: hstate
  mh_file :: hstate
  sndfile :: hstate
  pa_stream :: hstate
  trace :: "event list"

definition emit :: "event \<Rightarrow> world \<Rightarrow> world" where
  "emit e w = w\<lparr>trace := trace w @ [e]\<rparr>"

datatype mpg123_result = MPG123_DONE | MPG123_NEW_FORMAT | MPG123_OK | MPG123_ERR

record open_env =
  fopen_ok :: bool
  mpg123_init_ok :: bool
  mpg123_new_ok :: bool
  mpg123_open_ok :: bool
  mpg123_getformat_ok :: bool
  mpg123_format_ok :: bool
  mpg123_scan_ok :: bool
  sf_open_ok :: bool
  pa_simple_new_ok :: bool
  pa_simple_drain_ok :: bool
  rate :: int
  channels :: int
  total_length :: int

record step_env =
  key :: "char option"
  seek_result :: int
  read_result :: mpg123_result
  bytes_decoded :: nat
  frames_read :: int
  write_ok :: bool
  position :: int

record lstate =
  current_frame_pos :: int
  frames_played :: int
  last_percent :: int
  playback_error :: bool
  is_paused :: bool
  should_stop :: bool

text \<open>
  \<^verbatim>\<open>static_cast<int>(fraction_complete * scale)\<close> with
  \<^verbatim>\<open>fraction_complete = static_cast<double>(pos) / total\<close> is floating-point arithmetic.
  The model does not evaluate it: its integer result is the parameter \<open>fp scale pos total\<close>
  of every function below.
\<close>

type_synonym scaled = "int \<Rightarrow> int \<Rightarrow> int \<Rightarrow> int"

text \<open>
  \<^verbatim>\<open>getch\<close> saves the terminal settings, switches canonical mode and echo off, reads one
  byte and puts the saved settings back.
\<close>

definition getch :: "char \<Rightarrow> world \<Rightarrow> char \<times> world" where
  "getch c w =
     (let old_term = tty w;
          new_term = old_term\<lparr>icanon := False, echo := False, vmin := 1, vtime := 0\<rparr>;
          w1 = w\<lparr>tty := new_term\<rparr>;
          w2 = emit (Getch c) w1;
          w3 = w2\<lparr>tty := old_term\<rparr>
      in (c, w3))"

text \<open>The progress indicator at the end of an iteration, the same text in all four loops.\<close>

definition progress :: "scaled \<Rightarrow> int \<Rightarrow> int \<Rightarrow> lstate \<Rightarrow> world \<Rightarrow> lstate \<times> world" where
  "progress fp pos total_frames st w =
     (if total_frames > 0 then
        (let percent = min 100 (max 0 (fp 100 pos total_frames)) in
         if percent \<noteq> last_percent st then
           (let progress_bar_width = 25;
                cells = min progress_bar_width (max 0 (fp progress_bar_width pos total_frames))
            in (st\<lparr>last_percent := percent\<rparr>, emit (Progress_bar cells percent) w))
         else (st, w))
      else (st, emit Duration_unknown w))"

text \<open>The \<^verbatim>\<open>switch (key)\<close> of the frame-coded loop of \<^verbatim>\<open>playerWithControls\<close>.\<close>

definition mp3_key :: "int \<Rightarrow> int \<Rightarrow> char \<Rightarrow> lstate \<Rightarrow> world \<Rightarrow> lstate \<times> world" where
  "mp3_key output_rate total_frames k st w =
     (if k = CHR '' '' then (st\<lparr>is_paused := \<not> is_paused st\<rparr>, w)
      else if k = CHR ''s'' \<or> k = CHR ''S'' then (st\<lparr>should_stop := True\<rparr>, w)
      else if k = CHR ''j'' then
        (if current_frame_pos st > 0 then
           (let jump_frames = output_rate * 10;
                target_frame = current_frame_pos st - jump_frames;
                target_frame = (if target_frame < 0 then 0 else target_frame)
            in (st, emit (Mpg123_seek_frame target_frame SEEK_SET) w))
         else (st, w))
      else if k = CHR ''k'' then
        (if total_frames > 0 then
           (let jump_frames = output_rate * 10;
                target_frame = current_frame_pos st + jump_frames;
                target_frame = (if target_frame \<ge> total_frames then total_frames - 1 else target_frame)
            in (st, emit (Mpg123_seek_frame target_frame SEEK_SET) w))
         else (st, w))
      else (st, w))"

text \<open>
  The \<^verbatim>\<open>switch (key)\<close> of the sample-coded loops (the same text in \<^verbatim>\<open>player\<close> and in
  \<^verbatim>\<open>playerWithControls\<close>). \<open>ret\<close> is what the first \<^verbatim>\<open>sf_seek\<close> returns.
\<close>

definition snd_key :: "int \<Rightarrow> int \<Rightarrow> char \<Rightarrow> lstate \<Rightarrow> world \<Rightarrow> lstate \<times> world" where
  "snd_key samplerate ret k st w =
     (if k = CHR '' '' then (st\<lparr>is_paused := \<not> is_paused st\<rparr>, w)
      else if k = CHR ''s'' \<or> k = CHR ''S'' then (st\<lparr>should_stop := True\<rparr>, w)
      else if k = CHR ''j'' then
        (let jump_frames = samplerate * 10;
             w1 = emit (Sf_seek (- jump_frames) SEEK_CUR) w;
             pos = ret
         in if pos < 0 then
              (st\<lparr>current_frame_pos := 0, frames_played := 0\<rparr>, emit (Sf_seek 0 SEEK_SET) w1)
            else (st\<lparr>current_frame_pos := pos, frames_played := pos\<rparr>, w1))
      else if k = CHR ''k'' then
        (let jump_frames = samplerate * 10;
             w1 = emit (Sf_seek jump_frames SEEK_CUR) w;
             pos = ret
         in if pos < 0 then
              (st\<lparr>current_frame_pos := 0, frames_played := 0\<rparr>, emit (Sf_seek 0 SEEK_SET) w1)
            else (st\<lparr>current_frame_pos := pos, frames_played := pos\<rparr>, w1))
      else (st, w))"

text \<open>\<^verbatim>\<open>if (kbhit()) { char key = getch(); switch (key) ... }\<close>\<close>

definition poll_keys ::
  "(char \<Rightarrow> lstate \<Rightarrow> world \<Rightarrow> lstate \<times> world) \<Rightarrow> step_env \<Rightarrow> lstate \<Rightarrow> world \<Rightarrow> lstate \<times> world"
  where
  "poll_keys dispatch e st w =
     (let w1 = emit Kbhit w in
      case key e of
        None \<Rightarrow> (st, w1)
      | Some c \<Rightarrow> (let (k, w2) = getch c w1 in dispatch k st w2))"

text \<open>How one pass through a loop body ends: at its end or at \<^verbatim>\<open>continue\<close>, or at \<^verbatim>\<open>break\<close>.\<close>

datatype flow = Continue | Break

text \<open>The part of the frame-coded body from \<^verbatim>\<open>mpg123_read\<close> on, the same in both players.\<close>

definition mp3_decode ::
  "scaled \<Rightarrow> int \<Rightarrow> step_env \<Rightarrow> lstate \<Rightarrow> world \<Rightarrow> flow \<times> lstate \<times> world" where
  "mp3_decode fp total_frames e st w =
     (let w1 = emit Mpg123_read w in
      case read_result e of
        MPG123_DONE \<Rightarrow> (Break, st, w1)
      | MPG123_NEW_FORMAT \<Rightarrow> (Continue, st, emit Mpg123_getformat w1)
      | MPG123_ERR \<Rightarrow> (Break, st\<lparr>playback_error := True\<rparr>, w1)
      | MPG123_OK \<Rightarrow>
          if bytes_decoded e = 0 then (Continue, st, w1)
          else
            (let w2 = emit Pa_simple_write w1 in
             if \<not> write_ok e then (Break, st\<lparr>playback_error := True\<rparr>, w2)
             else
               (let w3 = emit Mpg123_framepos w2;
                    st1 = st\<lparr>current_frame_pos := position e\<rparr>;
                    (st2, w4) = progress fp (current_frame_pos st1) total_frames st1 w3
                in (Continue, st2, w4))))"

definition mp3_body ::
  "scaled \<Rightarrow> int \<Rightarrow> int \<Rightarrow> step_env \<Rightarrow> lstate \<Rightarrow> world \<Rightarrow> flow \<times> lstate \<times> world" where
  "mp3_body fp output_rate total_frames e st w =
     (let (st1, w1) = poll_keys (mp3_key output_rate total_frames) e st w in
      if is_paused st1 then (Continue, st1, emit (Usleep 100000) w1)
      else mp3_decode fp total_frames e st1 w1)"

definition snd_body ::
  "scaled \<Rightarrow> int \<Rightarrow> int \<Rightarrow> step_env \<Rightarrow> lstate \<Rightarrow> world \<Rightarrow> flow \<times> lstate \<times> world" where
  "snd_body fp samplerate total_frames e st w =
     (let (st1, w1) = poll_keys (snd_key samplerate (seek_result e)) e st w in
      if is_paused st1 then (Continue, st1, emit (Usleep 100000) w1)
      else
        (let w2 = emit Sf_readf_short w1 in
         if frames_read e \<le> 0 then (Break, st1, w2)
         else
           (let w3 = emit Pa_simple_write w2 in
            if \<not> write_ok e then (Break, st1\<lparr>playback_error := True\<rparr>, w3)
            else
              (let st2 = st1\<lparr>frames_played := frames_played st1 + frames_read e\<rparr>;
                   w4 = emit (Sf_seek 0 SEEK_CUR) w3;
                   st3 = st2\<lparr>current_frame_pos := position e\<rparr>;
                   (st4, w5) = progress fp (frames_played st3) total_frames st3 w4
               in (Continue, st4, w5)))))"

text \<open>\<^verbatim>\<open>while (!should_stop) { body }\<close>, and \<^verbatim>\<open>while (true) { body }\<close> of \<^verbatim>\<open>player\<close>.\<close>

fun while_not_stopped ::
  "(step_env \<Rightarrow> lstate \<Rightarrow> world \<Rightarrow> flow \<times> lstate \<times> world) \<Rightarrow>
   step_env list \<Rightarrow> lstate \<Rightarrow> world \<Rightarrow> (lstate \<times> world) option" where
  "while_not_stopped body [] st w = (if should_stop st then Some (st, w) else None)"
| "while_not_stopped body (e # es) st w =
     (if should_stop st then Some (st, w)
      else
        (case body e st w of
           (Break, st1, w1) \<Rightarrow> Some (st1, w1)
         | (Continue, st1, w1) \<Rightarrow> while_not_stopped body es st1 w1))"

fun while_true ::
  "(step_env \<Rightarrow> lstate \<Rightarrow> world \<Rightarrow> flow \<times> lstate \<times> world) \<Rightarrow>
   step_env list \<Rightarrow> lstate \<Rightarrow> world \<Rightarrow> (lstate \<times> world) option" where
  "while_true body [] st w = None"
| "while_true body (e # es) st w =
     (case body e st w of
        (Break, st1, w1) \<Rightarrow> Some (st1, w1)
      | (Continue, st1, w1) \<Rightarrow> while_true body es st1 w1)"

definition lstate_init :: lstate where
  "lstate_init =
     \<lparr>current_frame_pos = 0, frames_played = 0, last_percent = - 1,
      playback_error = False, is_paused = False, should_stop = False\<rparr>"

text \<open>The library calls that create and release handles.\<close>

definition mpg123_init :: "world \<Rightarrow> world" where
  "mpg123_init w = w\<lparr>mpg123_lib := acquire (mpg123_lib w)\<rparr>"

definition mpg123_exit :: "world \<Rightarrow> world" where
  "mpg123_exit w = w\<lparr>mpg123_lib := release (mpg123_lib w)\<rparr>"

definition mpg123_new :: "world \<Rightarrow> world" where
  "mpg123_new w = w\<lparr>mh := acquire (mh w)\<rparr>"

definition mpg123_delete :: "world \<Rightarrow> world" where
  "mpg123_delete w = w\<lparr>mh := release (mh w)\<rparr>"

definition mpg123_open :: "world \<Rightarrow> world" where
  "mpg123_open w = w\<lparr>mh_file := acquire (mh_file w)\<rparr>"

definition mpg123_close :: "world \<Rightarrow> world" where
  "mpg123_close w = w\<lparr>mh_file := release (mh_file w)\<rparr>"

definition sf_open :: "world \<Rightarrow> world" where
  "sf_open w = w\<lparr>sndfile := acquire (sndfile w)\<rparr>"

definition sf_close :: "world \<Rightarrow> world" where
  "sf_close w = w\<lparr>sndfile := release (sndfile w)\<rparr>"

definition pa_simple_new :: "world \<Rightarrow> world" where
  "pa_simple_new w = w\<lparr>pa_stream := acquire (pa_stream w)\<rparr>"

definition pa_simple_free :: "world \<Rightarrow> world" where
  "pa_simple_free w = w\<lparr>pa_stream := release (pa_stream w)\<rparr>"

text \<open>
  The steps of the frame-coded branch up to the creation of the output stream, the same
  text in both players: \<open>Inl w\<close> is an early \<^verbatim>\<open>return 1\<close> in the world \<open>w\<close>.
\<close>

definition mp3_opening :: "open_env \<Rightarrow> world \<Rightarrow> world + world" where
  "mp3_opening env w =
     (if \<not> mpg123_init_ok env then Inl w
      else
        (let w1 = mpg123_init w in
         if \<not> mpg123_new_ok env then Inl (mpg123_exit w1)
         else
           (let w2 = mpg123_new w1 in
            if \<not> mpg123_open_ok env then Inl (mpg123_exit (mpg123_delete w2))
            else
              (let w3 = mpg123_open w2 in
               if \<not> mpg123_getformat_ok env then
                 Inl (mpg123_exit (mpg123_delete (mpg123_close w3)))
               else if \<not> mpg123_format_ok env then
                 Inl (mpg123_exit (mpg123_delete (mpg123_close w3)))
               else if \<not> pa_simple_new_ok env then
                 Inl (mpg123_exit (mpg123_delete (mpg123_close w3)))
               else Inr (pa_simple_new w3)))))"

text \<open>
  The end of the three loops with controls: \<^verbatim>\<open>pa_simple_drain\<close> is called under
  \<^verbatim>\<open>!playback_error && !should_stop\<close>, and the session returns
  \<^verbatim>\<open>playback_error ? 1 : (should_stop ? 2 : 0)\<close>.
\<close>

definition drain_if_finished :: "lstate \<Rightarrow> world \<Rightarrow> world" where
  "drain_if_finished st w =
     (if \<not> playback_error st \<and> \<not> should_stop st then emit Pa_simple_drain w else w)"

definition exit_code :: "lstate \<Rightarrow> int" where
  "exit_code st = (if playback_error st then 1 else if should_stop st then 2 else 0)"

text \<open>
  The line printed before the handles are released: \<^verbatim>\<open>if (!playback_error && !should_stop)\<close>
  ... \<^verbatim>\<open>else if (should_stop)\<close> ... \<^verbatim>\<open>else\<close>. It tests \<open>should_stop\<close> before
  \<open>playback_error\<close>; the return expression tests them the other way round.
\<close>

datatype message = Playback_finished | Playback_stopped_by_user | Playback_stopped_due_to_error

definition closing_message :: "lstate \<Rightarrow> message" where
  "closing_message st =
     (if \<not> playback_error st \<and> \<not> should_stop st then Playback_finished
      else if should_stop st then Playback_stopped_by_user
      else Playback_stopped_due_to_error)"

text \<open>The sample-coded branch, the same text in both players.\<close>

definition snd_session ::
  "scaled \<Rightarrow> open_env \<Rightarrow> step_env list \<Rightarrow> world \<Rightarrow> (int \<times> world) option" where
  "snd_session fp env steps w =
     (if \<not> sf_open_ok env then Some (1, w)
      else
        (let w1 = sf_open w in
         if \<not> pa_simple_new_ok env then Some (1, sf_close w1)
         else
           (let w2 = pa_simple_new w1;
                old_tio = tty w2;
                new_tio = old_tio\<lparr>icanon := False, echo := False\<rparr>;
                w3 = w2\<lparr>tty := new_tio\<rparr>;
                old_flags = stdin_flags w3;
                w4 = w3\<lparr>stdin_flags := old_flags\<lparr>o_nonblock := True\<rparr>\<rparr>;
                total_frames = total_length env
            in case while_not_stopped (snd_body fp (rate env) total_frames) steps lstate_init w4 of
                 None \<Rightarrow> None
               | Some (st, w5) \<Rightarrow>
                   (let w6 = w5\<lparr>tty := old_tio\<rparr>;
                        w7 = w6\<lparr>stdin_flags := old_flags\<rparr>;
                        w8 = drain_if_finished st w7;
                        w9 = pa_simple_free w8;
                        w10 = sf_close w9
                    in Some (exit_code st, w10)))))"

definition playerWithControls ::
  "scaled \<Rightarrow> string \<Rightarrow> open_env \<Rightarrow> step_env list \<Rightarrow> world \<Rightarrow> (int \<times> world) option" where
  "playerWithControls fp filename env steps w =
     (if \<not> fopen_ok env then Some (1, w)
      else if isMP3File filename then
        (case mp3_opening env w of
           Inl w1 \<Rightarrow> Some (1, w1)
         | Inr w1 \<Rightarrow>
             (let old_tio = tty w1;
                  new_tio = old_tio\<lparr>icanon := False, echo := False\<rparr>;
                  w2 = w1\<lparr>tty := new_tio\<rparr>;
                  old_flags = stdin_flags w2;
                  w3 = w2\<lparr>stdin_flags := old_flags\<lparr>o_nonblock := True\<rparr>\<rparr>;
                  total_frames = total_length env
              in case while_not_stopped (mp3_body fp (rate env) total_frames) steps lstate_init w3 of
                   None \<Rightarrow> None
                 | Some (st, w4) \<Rightarrow>
                     (let w5 = w4\<lparr>tty := old_tio\<rparr>;
                          w6 = w5\<lparr>stdin_flags := old_flags\<rparr>;
                          w7 = drain_if_finished st w6;
                          w8 = pa_simple_free w7;
                          w9 = mpg123_exit (mpg123_delete (mpg123_close w8))
                      in Some (exit_code st, w9))))
      else snd_session fp env steps w)"

definition player ::
  "scaled \<Rightarrow> string \<Rightarrow> open_env \<Rightarrow> step_env list \<Rightarrow> world \<Rightarrow> (int \<times> world) option" where
  "player fp filename env steps w =
     (if \<not> fopen_ok env then Some (1, w)
      else if isMP3File filename then
        (case mp3_opening env w of
           Inl w1 \<Rightarrow> Some (1, w1)
         | Inr w1 \<Rightarrow>
             (let total_frames = total_length env
              in case while_true (mp3_decode fp total_frames) steps lstate_init w1 of
                   None \<Rightarrow> None
                 | Some (st, w2) \<Rightarrow>
                     (let w3 = (if \<not> playback_error st then emit Pa_simple_drain w2 else w2);
                          w4 = pa_simple_free w3;
                          w5 = mpg123_exit (mpg123_delete (mpg123_close w4))
                      in Some (if playback_error st then 1 else 0, w5))))
      else snd_session fp env steps w)"

text \<open>The world before a session: no handle exists yet and nothing has been traced.\<close>

definition fresh_world :: "termios \<Rightarrow> fdflags \<Rightarrow> world" where
  "fresh_world t f =
     \<lparr>tty = t, stdin_flags = f, mpg123_lib = Absent, mh = Absent, mh_file = Absent,
      sndfile = Absent, pa_stream = Absent, trace = []\<rparr>"

text \<open>
  A handle is in order after a session when it was never created or was created and
  released exactly once.
\<close>

definition settled :: "hstate \<Rightarrow> bool" where
  "settled h = (h = Absent \<or> h = Released)"

text \<open>
  The vocabulary of the statements about sessions. \<open>reaches_loop\<close>: every step before the
  playback loop succeeded. \<open>same_resources\<close>: two worlds agree on the terminal, the flags
  of standard input and every handle. \<open>cleaned_up\<close>: what a session owes the world it
  started in, \<open>fresh_world t f\<close>, when it returns the code \<open>rc\<close>.
\<close>

definition reaches_loop :: "string \<Rightarrow> open_env \<Rightarrow> bool" where
  "reaches_loop filename env =
     (fopen_ok env \<and>
      (if isMP3File filename then
         mpg123_init_ok env \<and> mpg123_new_ok env \<and> mpg123_open_ok env \<and>
         mpg123_getformat_ok env \<and> mpg123_format_ok env \<and> pa_simple_new_ok env
       else sf_open_ok env \<and> pa_simple_new_ok env))"

definition same_resources :: "world \<Rightarrow> world \<Rightarrow> bool" where
  "same_resources w w' =
     (tty w' = tty w \<and> stdin_flags w' = stdin_flags w \<and> mpg123_lib w' = mpg123_lib w \<and>
      mh w' = mh w \<and> mh_file w' = mh_file w \<and> sndfile w' = sndfile w \<and>
      pa_stream w' = pa_stream w)"

definition cleaned_up :: "string \<Rightarrow> open_env \<Rightarrow> termios \<Rightarrow> fdflags \<Rightarrow> int \<Rightarrow> world \<Rightarrow> bool" where
  "cleaned_up filename env t f rc w' =
     (tty w' = t \<and> stdin_flags w' = f \<and>
      settled (mpg123_lib w') \<and> settled (mh w') \<and> settled (mh_file w') \<and>
      settled (sndfile w') \<and> settled (pa_stream w') \<and>
      (if reaches_loop filename env then
         pa_stream w' = Released \<and>
         (if isMP3File filename
          then mh w' = Released \<and> mh_file w' = Released \<and> mpg123_lib w' = Released
          else sndfile w' = Released)
       else rc = 1 \<and> pa_stream w' = Absent \<and> trace w' = []))"

text \<open>
  A session is playing when it is neither paused nor stopped nor failed. An iteration
  fails when the decoder reports an error or the write of a decoded chunk does.
\<close>

definition playing :: "lstate \<Rightarrow> bool" where
  "playing st = (\<not> should_stop st \<and> \<not> is_paused st \<and> \<not> playback_error st)"

definition stop_key :: "step_env \<Rightarrow> bool" where
  "stop_key e = (key e = Some CHR ''s'' \<or> key e = Some CHR ''S'')"

definition mp3_fails :: "step_env \<Rightarrow> bool" where
  "mp3_fails e =
     (read_result e = MPG123_ERR \<or>
      (read_result e = MPG123_OK \<and> bytes_decoded e \<noteq> 0 \<and> \<not> write_ok e))"

definition snd_fails :: "step_env \<Rightarrow> bool" where
  "snd_fails e = (0 < frames_read e \<and> \<not> write_ok e)"

text \<open>
  Concrete inputs for the examples: a terminal in canonical mode with echo, an
  environment in which every call succeeds (44100 Hz, 100 seconds), an iteration that
  decodes and writes one chunk, and exact integer division in place of the
  floating-point expression.
\<close>

definition tty0 :: termios where
  "tty0 = \<lparr>icanon = True, echo = True, vmin = 1, vtime = 0, other_settings = 0\<rparr>"

definition flags0 :: fdflags where
  "flags0 = \<lparr>o_nonblock = False, other_flags = 2\<rparr>"

definition ok_env :: open_env where
  "ok_env =
     \<lparr>fopen_ok = True, mpg123_init_ok = True, mpg123_new_ok = True, mpg123_open_ok = True,
      mpg123_getformat_ok = True, mpg123_format_ok = True, mpg123_scan_ok = True,
      sf_open_ok = True, pa_simple_new_ok = True, pa_simple_drain_ok = True,
      rate = 44100, channels = 2, total_length = 4410000\<rparr>"

definition chunk :: step_env where
  "chunk =
     \<lparr>key = None, seek_result = 0, read_result = MPG123_OK, bytes_decoded = 8192,
      frames_read = 4096, write_ok = True, position = 4096\<rparr>"

definition fp_floor :: scaled where
  "fp_floor scale pos tot = (scale * pos) div tot"

text \<open>
  Vocabulary for the transport keys and the pause. A step is quiet when it brings no key
  the handlers act on; \<open>idle_events\<close> is what a paused pass adds to the trace at such
  a step.
\<close>

definition decodes_or_writes :: "event \<Rightarrow> bool" where
  "decodes_or_writes ev = (ev = Mpg123_read \<or> ev = Sf_readf_short \<or> ev = Pa_simple_write)"

definition quiet :: "step_env \<Rightarrow> bool" where
  "quiet e =
     (case key e of
        None \<Rightarrow> True
      | Some c \<Rightarrow> c \<noteq> CHR '' '' \<and> c \<noteq> CHR ''s'' \<and> c \<noteq> CHR ''S'' \<and> c \<noteq> CHR ''j'' \<and> c \<noteq> CHR ''k'')"

definition idle_events :: "step_env \<Rightarrow> event list" where
  "idle_events e =
     Kbhit # (case key e of None \<Rightarrow> [] | Some c \<Rightarrow> [Getch c]) @ [Usleep 100000]"

definition added :: "world \<Rightarrow> world \<Rightarrow> event list" where
  "added w w' = drop (length (trace w)) (trace w')"

text \<open>
  The part of the sample-coded body from \<^verbatim>\<open>sf_readf_short\<close> on, set apart for the proofs
  (\<open>snd_body_decode\<close> shows that it is that part), the events that are neither a poll, a
  key read nor a sleep, and the outcome of a run from \<open>w\<close>: the final state, and the final
  world with only those events of the run in its trace.
\<close>

definition snd_decode ::
  "scaled \<Rightarrow> int \<Rightarrow> step_env \<Rightarrow> lstate \<Rightarrow> world \<Rightarrow> flow \<times> lstate \<times> world" where
  "snd_decode fp total_frames e st1 w1 =
     (let w2 = emit Sf_readf_short w1 in
      if frames_read e \<le> 0 then (Break, st1, w2)
      else
        (let w3 = emit Pa_simple_write w2 in
         if \<not> write_ok e then (Break, st1\<lparr>playback_error := True\<rparr>, w3)
         else
           (let st2 = st1\<lparr>frames_played := frames_played st1 + frames_read e\<rparr>;
                w4 = emit (Sf_seek 0 SEEK_CUR) w3;
                st3 = st2\<lparr>current_frame_pos := position e\<rparr>;
                (st4, w5) = progress fp (frames_played st3) total_frames st3 w4
            in (Continue, st4, w5))))"

definition keyboard_or_sleep :: "event \<Rightarrow> bool" where
  "keyboard_or_sleep ev = (case ev of Kbhit \<Rightarrow> True | Getch c \<Rightarrow> True | Usleep n \<Rightarrow> True | _ \<Rightarrow> False)"

definition effects :: "event list \<Rightarrow> event list" where
  "effects evs = filter (\<lambda>ev. \<not> keyboard_or_sleep ev) evs"

definition outcome :: "world \<Rightarrow> (lstate \<times> world) option \<Rightarrow> (lstate \<times> world) option" where
  "outcome w r = map_option (\<lambda>(st', w'). (st', w'\<lparr>trace := effects (added w w')\<rparr>)) r"

section \<open>Playlist traversal (audio.cpp, playWithControls and its variants)\<close>

text \<open>
  A driver calls \<^verbatim>\<open>playerWithControls\<close> once per track and looks only at the code it
  returns. What the \<open>k\<close>-th call (counted from 0) returns on a path is the parameter
  \<open>play k path\<close>, \<open>None\<close> when that session does not return; \<open>answer k\<close> is the character
  the user types at the prompt after the \<open>k\<close>-th call. The drivers return what they did, in
  order, together with the list they were given.
\<close>

type_synonym play = "nat \<Rightarrow> string \<Rightarrow> int option"
type_synonym answers = "nat \<Rightarrow> char"

datatype devent =
    Push ptr
  | Pop ptr
  | Play string
  | Prompt
  | Sleep_seconds nat
  | Stopped_by_user
  | Complete

text \<open>\<^verbatim>\<open>std::toupper(static_cast<unsigned char>(choice)) != 'Y'\<close> is false for \<open>y\<close> and \<open>Y\<close>.\<close>

definition is_yes :: "char \<Rightarrow> bool" where
  "is_yes c = (c = CHR ''y'' \<or> c = CHR ''Y'')"

text \<open>Puts the events of one pass in front of what the rest of the loop does.\<close>

fun prepend :: "devent list \<Rightarrow> (devent list \<times> bool) res \<Rightarrow> (devent list \<times> bool) res" where
  "prepend evs None = None"
| "prepend evs (Some (Inl e)) = Some (Inl e)"
| "prepend evs (Some (Inr (tlog, stopped))) = Some (Inr (evs @ tlog, stopped))"

text \<open>
  What every driver does with one track once the node is in hand: the call, the test for
  code 2, the prompt after any other non-zero code. \<open>Inl\<close> is the way out of the
  traversal (\<^verbatim>\<open>return\<close>, or \<^verbatim>\<open>userStopped = true; break\<close>), \<open>Inr\<close> goes on.
\<close>

definition play_track :: "play \<Rightarrow> answers \<Rightarrow> nat \<Rightarrow> string \<Rightarrow> (devent list + devent list) option"
  where
  "play_track play answer k songPath =
     (case play k songPath of
        None \<Rightarrow> None
      | Some result \<Rightarrow>
          if result = 2 then Some (Inl [Play songPath, Stopped_by_user])
          else if result \<noteq> 0 then
            (if \<not> is_yes (answer k) then Some (Inl [Play songPath, Prompt, Stopped_by_user])
             else Some (Inr [Play songPath, Prompt]))
          else Some (Inr [Play songPath]))"

text \<open>\<^verbatim>\<open>playWithControls\<close>: \<^verbatim>\<open>for (int i = 0; i < n; ++i)\<close> from \<^verbatim>\<open>head\<close>.\<close>

function seq_loop ::
  "play \<Rightarrow> answers \<Rightarrow> store \<Rightarrow> int \<Rightarrow> int \<Rightarrow> ptr \<Rightarrow> (devent list \<times> bool) res" where
  "seq_loop play answer h n i current =
     (if i < n then
        (if current = None then Some (Inr ([], False))
         else
           (case deref h current of
              Inl e \<Rightarrow> Some (Inl e)
            | Inr nd \<Rightarrow>
                (case play_track play answer (nat i) (song nd) of
                   None \<Rightarrow> None
                 | Some (Inl evs) \<Rightarrow> Some (Inr (evs, True))
                 | Some (Inr evs) \<Rightarrow>
                     prepend (evs @ (if i < n - 1 then [Sleep_seconds 2] else []))
                       (seq_loop play answer h n (i + 1) (nextp nd)))))
      else Some (Inr ([], False)))"
  by pat_completeness auto
termination
  by (relation "measure (\<lambda>(play, answer, h, n, i, current). nat (n - i))") auto

declare seq_loop.simps [simp del]

text \<open>The end of a driver: the closing line is printed unless the user stopped.\<close>

fun finish :: "LinkedList \<Rightarrow> (devent list \<times> bool) res \<Rightarrow> (devent list \<times> LinkedList) res" where
  "finish l None = None"
| "finish l (Some (Inl e)) = Some (Inl e)"
| "finish l (Some (Inr (tlog, stopped))) =
     Some (Inr (if stopped then tlog else tlog @ [Complete], l))"

definition playWithControls :: "play \<Rightarrow> answers \<Rightarrow> LinkedList \<Rightarrow> (devent list \<times> LinkedList) res"
  where
  "playWithControls play answer l =
     (if head l = None then Some (Inr ([], l))
      else finish l (seq_loop play answer (heap l) (len l) 0 (head l)))"

text \<open>
  \<^verbatim>\<open>playWithControlsSingle\<close>: \<open>choice\<close> is the number the input loop accepted, so
  \<open>1 \<le> choice \<le> len\<close>; the code returned by the session is not looked at.
\<close>

function single_walk :: "store \<Rightarrow> int \<Rightarrow> int \<Rightarrow> ptr \<Rightarrow> error + ptr" where
  "single_walk h choice i current =
     (if i < choice then
        (case deref h current of
           Inl e \<Rightarrow> Inl e
         | Inr nd \<Rightarrow> single_walk h choice (i + 1) (nextp nd))
      else Inr current)"
  by pat_completeness auto
termination
  by (relation "measure (\<lambda>(h, choice, i, current). nat (choice - i))") auto

declare single_walk.simps [simp del]

definition playWithControlsSingle :: "play \<Rightarrow> int \<Rightarrow> LinkedList \<Rightarrow> (devent list \<times> LinkedList) res"
  where
  "playWithControlsSingle play choice l =
     (if head l = None then Some (Inr ([], l))
      else
        (case single_walk (heap l) choice 1 (head l) of
           Inl e \<Rightarrow> Some (Inl e)
         | Inr current \<Rightarrow>
             if current \<noteq> None then
               (case deref (heap l) current of
                  Inl e \<Rightarrow> Some (Inl e)
                | Inr nd \<Rightarrow>
                    (case play 0 (song nd) of
                       None \<Rightarrow> None
                     | Some result \<Rightarrow> Some (Inr ([Play (song nd)], l))))
             else Some (Inr ([], l))))"

text \<open>
  The \<^verbatim>\<open>Stack\<close> of link.cpp is a chain of \<^verbatim>\<open>stackNode\<close>s that only the stack itself
  sees; it is modelled by the list of the items, top first.
\<close>

type_synonym Stack = "ptr list"

definition isEmpty :: "Stack \<Rightarrow> bool" where
  "isEmpty stk = (stk = [])"

definition push :: "ptr \<Rightarrow> Stack \<Rightarrow> Stack" where
  "push item stk = item # stk"

definition pop :: "Stack \<Rightarrow> ptr \<times> Stack" where
  "pop stk = (case stk of [] \<Rightarrow> (None, []) | item # rest \<Rightarrow> (item, rest))"

text \<open>\<^verbatim>\<open>do { nodeStack.push(temp); temp = temp->next; } while (temp != list.head);\<close>\<close>

partial_function (option) push_loop ::
  "store \<Rightarrow> ptr \<Rightarrow> ptr \<Rightarrow> Stack \<times> devent list \<Rightarrow> (error + Stack \<times> devent list) option" where
  "push_loop h hp temp sl =
     (case deref h temp of
        Inl e \<Rightarrow> Some (Inl e)
      | Inr nd \<Rightarrow>
          if nextp nd \<noteq> hp then push_loop h hp (nextp nd) (push temp (fst sl), snd sl @ [Push temp])
          else Some (Inr (push temp (fst sl), snd sl @ [Push temp])))"

text \<open>\<^verbatim>\<open>while ((nodeToPlay = nodeStack.pop()) != nullptr) { ... }\<close>\<close>

function pop_loop ::
  "play \<Rightarrow> answers \<Rightarrow> store \<Rightarrow> nat \<Rightarrow> Stack \<Rightarrow> (devent list \<times> bool) res" where
  "pop_loop play answer h count stk =
     (case pop stk of
        (None, stk1) \<Rightarrow> Some (Inr ([], False))
      | (Some a, stk1) \<Rightarrow>
          (case deref h (Some a) of
             Inl e \<Rightarrow> Some (Inl e)
           | Inr nd \<Rightarrow>
               (case play_track play answer (count - 1) (song nd) of
                  None \<Rightarrow> None
                | Some (Inl evs) \<Rightarrow> Some (Inr (Pop (Some a) # evs, True))
                | Some (Inr evs) \<Rightarrow>
                    prepend (Pop (Some a) # evs @ (if \<not> isEmpty stk1 then [Sleep_seconds 2] else []))
                      (pop_loop play answer h (count + 1) stk1))))"
  by pat_completeness auto
termination
  by (relation "measure (\<lambda>(play, answer, h, count, stk). length stk)")
     (auto simp: pop_def split: list.splits)

declare pop_loop.simps [simp del]

definition playWithControlsReverse ::
  "play \<Rightarrow> answers \<Rightarrow> LinkedList \<Rightarrow> (devent list \<times> LinkedList) res" where
  "playWithControlsReverse play answer l =
     (if head l = None then Some (Inr ([], l))
      else
        (case push_loop (heap l) (head l) (head l) ([], []) of
           None \<Rightarrow> None
         | Some (Inl e) \<Rightarrow> Some (Inl e)
         | Some (Inr (nodeStack, pushed)) \<Rightarrow>
             finish l (prepend pushed (pop_loop play answer (heap l) 1 nodeStack))))"

text \<open>
  \<^verbatim>\<open>playWithControlsRepeat\<close>: \<^verbatim>\<open>for (int i = 0; i < n * rounds && !userStopped; ++i)\<close>.
  \<^verbatim>\<open>n * rounds\<close> is a product of two \<^verbatim>\<open>int\<close>s; beyond \<open>2^31 - 1\<close> it is undefined.
\<close>

definition INT_MAX :: int where
  "INT_MAX = 2147483647"

function repeat_loop ::
  "play \<Rightarrow> answers \<Rightarrow> store \<Rightarrow> int \<Rightarrow> int \<Rightarrow> ptr \<Rightarrow> (devent list \<times> bool) res" where
  "repeat_loop play answer h limit i temp =
     (if i < limit then
        (if temp = None then Some (Inr ([], False))
         else
           (case deref h temp of
              Inl e \<Rightarrow> Some (Inl e)
            | Inr nd \<Rightarrow>
                (case play_track play answer (nat i) (song nd) of
                   None \<Rightarrow> None
                 | Some (Inl evs) \<Rightarrow> Some (Inr (evs, True))
                 | Some (Inr evs) \<Rightarrow>
                     prepend (evs @ (if i < limit - 1 then [Sleep_seconds 2] else []))
                       (repeat_loop play answer h limit (i + 1) (nextp nd)))))
      else Some (Inr ([], False)))"
  by pat_completeness auto
termination
  by (relation "measure (\<lambda>(play, answer, h, limit, i, temp). nat (limit - i))") auto

declare repeat_loop.simps [simp del]

definition playWithControlsRepeat ::
  "play \<Rightarrow> answers \<Rightarrow> int \<Rightarrow> LinkedList \<Rightarrow> (devent list \<times> LinkedList) res" where
  "playWithControlsRepeat play answer rounds l =
     (if head l = None then Some (Inr ([], l))
      else if rounds \<le> 0 then Some (Inr ([], l))
      else
        (let n = len l in
         if n * rounds > INT_MAX \<or> n * rounds < - INT_MAX - 1 then Some (Inl IntOverflow)
         else finish l (repeat_loop play answer (heap l) (n * rounds) 0 (head l))))"

text \<open>The song paths handed to \<^verbatim>\<open>playerWithControls\<close>, the pushes and the pops, in order.\<close>

fun plays :: "devent list \<Rightarrow> string list" where
  "plays [] = []"
| "plays (Play p # evs) = p # plays evs"
| "plays (ev # evs) = plays evs"

fun pushes :: "devent list \<Rightarrow> ptr list" where
  "pushes [] = []"
| "pushes (Push p # evs) = p # pushes evs"
| "pushes (ev # evs) = pushes evs"

fun pops :: "devent list \<Rightarrow> ptr list" where
  "pops [] = []"
| "pops (Pop p # evs) = p # pops evs"
| "pops (ev # evs) = pops evs"

text \<open>The song stored in a cell (the empty string for a cell that is not live).\<close>

definition song_at :: "store \<Rightarrow> addr \<Rightarrow> string" where
  "song_at h a = (case h a of None \<Rightarrow> [] | Some nd \<Rightarrow> song nd)"

text \<open>
  A log obeys the stop rule when a call that returned 2 is followed by nothing but the
  stop message: no prompt, no pause, no further track.
\<close>

fun halts_on_stop :: "play \<Rightarrow> nat \<Rightarrow> devent list \<Rightarrow> bool" where
  "halts_on_stop play k [] = True"
| "halts_on_stop play k (Play p # evs) =
     (if play k p = Some 2 then evs = [] \<or> evs = [Stopped_by_user]
      else halts_on_stop play (Suc k) evs)"
| "halts_on_stop play k (ev # evs) = halts_on_stop play k evs"

declare push_loop.simps [code]

text \<open>
  Two conditions on the sessions of a traversal: every session returns; and no session is
  stopped by the user and no failed one is declined at the prompt.
\<close>

definition always_returns :: "play \<Rightarrow> bool" where
  "always_returns play = (\<forall>k p. play k p \<noteq> None)"

definition never_stops :: "play \<Rightarrow> answers \<Rightarrow> bool" where
  "never_stops play answer =
     (\<forall>k p. play k p \<noteq> Some 2 \<and> (play k p \<noteq> Some 0 \<longrightarrow> is_yes (answer k)))"

text \<open>A log in which no call returned 2.\<close>

fun no_stop :: "play \<Rightarrow> nat \<Rightarrow> devent list \<Rightarrow> bool" where
  "no_stop play k [] = True"
| "no_stop play k (Play p # evs) = (play k p \<noteq> Some 2 \<and> no_stop play (Suc k) evs)"
| "no_stop play k (ev # evs) = no_stop play k evs"

text \<open>A loop that was stopped obeys the stop rule; one that was not holds no code 2 at all.\<close>

definition loop_ok :: "play \<Rightarrow> nat \<Rightarrow> devent list \<times> bool \<Rightarrow> bool" where
  "loop_ok play k r = (if snd r then halts_on_stop play k (fst r) else no_stop play k (fst r))"

text \<open>Two playlists as \<^verbatim>\<open>add_end\<close> builds them, with three and with two entries.\<close>

definition abc_playlist :: LinkedList where
  "abc_playlist =
     \<lparr>heap = (\<lambda>a. None)
        (0 := Some \<lparr>song = ''A.mp3'', artist = ''x'', nextp = Some 1\<rparr>,
         1 := Some \<lparr>song = ''B.wav'', artist = ''y'', nextp = Some 2\<rparr>,
         2 := Some \<lparr>song = ''C.ogg'', artist = ''z'', nextp = Some 0\<rparr>),
      brk = 3, head = Some 0, listName = ''mix'', len = 3, taken = True\<rparr>"

definition ab_playlist :: LinkedList where
  "ab_playlist =
     \<lparr>heap = (\<lambda>a. None)
        (0 := Some \<lparr>song = ''1.mp3'', artist = ''x'', nextp = Some 1\<rparr>,
         1 := Some \<lparr>song = ''2.mp3'', artist = ''y'', nextp = Some 0\<rparr>),
      brk = 2, head = Some 0, listName = ''two'', len = 2, taken = True\<rparr>"

section \<open>Properties of the format classifier\<close>

lemma regex_match_star:
  "regex_match (AnyStar # r) s \<longleftrightarrow>
     (\<exists>pre suf. s = pre @ suf \<and> (\<forall>c\<in>set pre. dot_matches c) \<and> regex_match r suf)"
proof (induction s)
  case Nil
  then show ?case by simp
next
  case (Cons c cs)
  show ?case
  proof
    assume "regex_match (AnyStar # r) (c # cs)"
    then consider "regex_match r (c # cs)"
      | "dot_matches c" "regex_match (AnyStar # r) cs"
      by auto
    then show "\<exists>pre suf. c # cs = pre @ suf \<and> (\<forall>c\<in>set pre. dot_matches c) \<and> regex_match r suf"
    proof cases
      case 1
      then have "c # cs = [] @ (c # cs) \<and> (\<forall>c\<in>set []. dot_matches c) \<and> regex_match r (c # cs)"
        by simp
      then show ?thesis by blast
    next
      case 2
      with Cons.IH obtain pre suf where
        ps: "cs = pre @ suf" "\<forall>c\<in>set pre. dot_matches c" "regex_match r suf"
        by blast
      with 2 have "c # cs = (c # pre) @ suf \<and> (\<forall>x\<in>set (c # pre). dot_matches x) \<and> regex_match r suf"
        by simp
      then show ?thesis by blast
    qed
  next
    assume "\<exists>pre suf. c # cs = pre @ suf \<and> (\<forall>c\<in>set pre. dot_matches c) \<and> regex_match r suf"
    then obtain pre suf where
      ps: "c # cs = pre @ suf" "\<forall>c\<in>set pre. dot_matches c" "regex_match r suf"
      by blast
    show "regex_match (AnyStar # r) (c # cs)"
    proof (cases pre)
      case Nil
      with ps have "regex_match r (c # cs)" by simp
      then show ?thesis by simp
    next
      case pc: (Cons p pre')
      with ps have "c = p" "cs = pre' @ suf" "dot_matches c" "\<forall>c\<in>set pre'. dot_matches c"
        by auto
      with ps(3) Cons.IH have "dot_matches c \<and> regex_match (AnyStar # r) cs"
        by blast
      then show ?thesis by simp
    qed
  qed
qed

lemma regex_match_extension:
  "regex_match [Lit CHR ''.'', OneOf ''mM'', OneOf ''pP'', Lit CHR ''3'', Eol] s \<longleftrightarrow>
     (\<exists>a b. s = [CHR ''.'', a, b, CHR ''3''] \<and> a \<in> set ''mM'' \<and> b \<in> set ''pP'')"
proof (cases s)
  case Nil
  then show ?thesis by simp
next
  case s1: (Cons c1 t1)
  show ?thesis
  proof (cases t1)
    case Nil
    with s1 show ?thesis by simp
  next
    case s2: (Cons c2 t2)
    show ?thesis
    proof (cases t2)
      case Nil
      with s1 s2 show ?thesis by simp
    next
      case s3: (Cons c3 t3)
      show ?thesis
      proof (cases t3)
        case Nil
        with s1 s2 s3 show ?thesis by simp
      next
        case s4: (Cons c4 t4)
        with s1 s2 s3 show ?thesis by auto
      qed
    qed
  qed
qed

lemma isMP3File_iff:
  "isMP3File s \<longleftrightarrow>
     (\<exists>pre a b. s = pre @ [CHR ''.'', a, b, CHR ''3''] \<and> a \<in> set ''mM'' \<and> b \<in> set ''pP''
        \<and> (\<forall>c\<in>set pre. dot_matches c))"
  unfolding isMP3File_def mp3Pattern_def regex_match_star regex_match_extension
  by blast

lemma ends_with_mp3_ci_iff:
  "ends_with_mp3_ci s \<longleftrightarrow>
     (\<exists>pre a b. s = pre @ [CHR ''.'', a, b, CHR ''3''] \<and> a \<in> set ''mM'' \<and> b \<in> set ''pP'')"
proof
  assume e: "ends_with_mp3_ci s"
  then have len: "4 \<le> length s" by (simp add: ends_with_mp3_ci_def)
  have split: "s = take (length s - 4) s @ drop (length s - 4) s" by simp
  from e obtain a b where
    "drop (length s - 4) s = [CHR ''.'', a, b, CHR ''3'']" "a \<in> set ''mM''" "b \<in> set ''pP''"
    unfolding ends_with_mp3_ci_def by (auto split: list.splits)
  with split show "\<exists>pre a b. s = pre @ [CHR ''.'', a, b, CHR ''3''] \<and> a \<in> set ''mM'' \<and> b \<in> set ''pP''"
    by metis
next
  assume "\<exists>pre a b. s = pre @ [CHR ''.'', a, b, CHR ''3''] \<and> a \<in> set ''mM'' \<and> b \<in> set ''pP''"
  then obtain pre a b where
    "s = pre @ [CHR ''.'', a, b, CHR ''3'']" "a \<in> set ''mM''" "b \<in> set ''pP''"
    by blast
  then show "ends_with_mp3_ci s"
    by (simp add: ends_with_mp3_ci_def)
qed

text \<open>
  The classifier on the names of the specification's scenario: \<^verbatim>\<open>Song.MP3\<close> is
  frame-coded, the other four are sample-coded.
\<close>

lemma classify_scenario:
  "classify ''Song.MP3'' = FrameCoded"
  "classify ''track.wav'' = SampleCoded"
  "classify ''track.flac'' = SampleCoded"
  "classify ''track.ogg'' = SampleCoded"
  "classify ''noext'' = SampleCoded"
  by (simp_all add: classify_def isMP3File_def mp3Pattern_def)

text \<open>
  Whatever the classifier calls frame-coded ends in \<^verbatim>\<open>.mp3\<close>; the converse holds for
  the names with no LF or CR before the extension.
\<close>

lemma classify_FrameCoded_iff:
  "classify s = FrameCoded \<longleftrightarrow>
     ends_with_mp3_ci s \<and> (\<forall>c\<in>set (take (length s - 4) s). dot_matches c)"
proof -
  have "isMP3File s \<longleftrightarrow>
     ends_with_mp3_ci s \<and> (\<forall>c\<in>set (take (length s - 4) s). dot_matches c)"
  proof
    assume "isMP3File s"
    then obtain pre a b where
      s: "s = pre @ [CHR ''.'', a, b, CHR ''3'']" and ab: "a \<in> set ''mM''" "b \<in> set ''pP''"
      and pre: "\<forall>c\<in>set pre. dot_matches c"
      unfolding isMP3File_iff by blast
    from s have "take (length s - 4) s = pre" by simp
    moreover from s ab have "ends_with_mp3_ci s" unfolding ends_with_mp3_ci_iff by blast
    ultimately show "ends_with_mp3_ci s \<and> (\<forall>c\<in>set (take (length s - 4) s). dot_matches c)"
      using pre by simp
  next
    assume h: "ends_with_mp3_ci s \<and> (\<forall>c\<in>set (take (length s - 4) s). dot_matches c)"
    then obtain pre a b where
      s: "s = pre @ [CHR ''.'', a, b, CHR ''3'']" and ab: "a \<in> set ''mM''" "b \<in> set ''pP''"
      unfolding ends_with_mp3_ci_iff by blast
    from s have "take (length s - 4) s = pre" by simp
    with h have "\<forall>c\<in>set pre. dot_matches c" by simp
    with s ab show "isMP3File s" unfolding isMP3File_iff by blast
  qed
  then show ?thesis by (simp add: classify_def)
qed

text \<open>
  Claim C9. The classifier is to return FrameCoded exactly for the names that end in
  \<^verbatim>\<open>.mp3\<close> case-insensitively. The name \<^verbatim>\<open>a<LF>b.mp3\<close> ends in \<^verbatim>\<open>.mp3\<close>, yet the
  pattern's leading \<^verbatim>\<open>.*\<close> cannot cross the line feed, so the name is classified
  SampleCoded.
\<close>

theorem classify_line_feed_name:
  "ends_with_mp3_ci ''a\<newline>b.mp3'' \<and> classify ''a\<newline>b.mp3'' = SampleCoded"
  by (simp add: ends_with_mp3_ci_def classify_def isMP3File_def mp3Pattern_def)



section \<open>Properties of the circular playlist\<close>

subsection \<open>Chains of cells\<close>

lemma path_append:
  "path h p (as @ bs) q \<longleftrightarrow> (\<exists>r. path h p as r \<and> path h r bs q)"
  by (induction as arbitrary: p) (auto split: option.splits)

lemma path_upd_other:
  "a \<notin> set as \<Longrightarrow> path (h(a := v)) p as q = path h p as q"
  by (induction as arbitrary: p) (auto split: option.splits)

lemma path_live:
  "path h p as q \<Longrightarrow> a \<in> set as \<Longrightarrow> h a \<noteq> None"
  by (induction as arbitrary: p) (auto split: option.splits)

lemma path_snoc:
  "path h p (as @ [z]) q \<longleftrightarrow>
     path h p as (Some z) \<and> (\<exists>nd. h z = Some nd \<and> nextp nd = q)"
  by (auto simp: path_append split: option.splits)

lemma path_follow_next:
  "path h p as q \<Longrightarrow> follow_next h (length as) p = q"
  by (induction as arbitrary: p) (auto split: option.splits)

lemma path_cells_from:
  "path h p as q \<Longrightarrow> cells_from h (length as) p = as"
  by (induction as arbitrary: p) (auto split: option.splits)

lemma find_last_path:
  "path h (Some x) (x # rest) hp \<Longrightarrow> hp \<notin> Some ` set rest \<Longrightarrow>
   find_last h hp (Some x) = Some (Inr (Some (last (x # rest))))"
proof (induction rest arbitrary: x)
  case Nil
  then show ?case
    by (subst find_last.simps) (auto simp: deref_def split: option.splits)
next
  case (Cons y r)
  from Cons.prems obtain nd where nd: "h x = Some nd" "nextp nd = Some y" "path h (Some y) (y # r) hp"
    by (auto split: option.splits)
  from Cons.prems have "hp \<noteq> Some y" "hp \<notin> Some ` set r" by auto
  with nd Cons.IH show ?case
    by (subst find_last.simps) (simp add: deref_def)
qed

lemma del_end_loop_path:
  "path h (Some x) (x # rest) hp \<Longrightarrow> hp \<notin> Some ` set rest \<Longrightarrow>
   del_end_loop h hp f (Some x) =
     Some (Inr (if rest = [] then f else Some (last (butlast (x # rest))), Some (last (x # rest))))"
proof (induction rest arbitrary: x f)
  case Nil
  then show ?case
    by (subst del_end_loop.simps) (auto simp: deref_def split: option.splits)
next
  case (Cons y r)
  from Cons.prems obtain nd where nd: "h x = Some nd" "nextp nd = Some y" "path h (Some y) (y # r) hp"
    by (auto split: option.splits)
  from Cons.prems have "hp \<noteq> Some y" "hp \<notin> Some ` set r" by auto
  with nd Cons.IH[of y "Some x"] show ?case
    by (subst del_end_loop.simps) (simp add: deref_def)
qed

lemma add_at_loop_path:
  "path h (Some x) (x # rest) hp \<Longrightarrow> hp \<notin> Some ` set rest \<Longrightarrow>
   k = nat (pos - 1 - i) \<Longrightarrow> k \<le> length rest \<Longrightarrow>
   add_at_loop h hp pos i (Some x) = Inr (Some ((x # rest) ! k))"
proof (induction k arbitrary: x rest i)
  case 0
  then show ?case by (subst add_at_loop.simps) simp
next
  case (Suc k)
  then obtain y r where rest: "rest = y # r" by (cases rest) auto
  with Suc.prems obtain nd where nd: "h x = Some nd" "nextp nd = Some y" "path h (Some y) (y # r) hp"
    by (auto split: option.splits)
  from Suc.prems rest have ne: "hp \<noteq> Some y" "hp \<notin> Some ` set r" by auto
  from Suc.prems have i: "i < pos - 1" "k = nat (pos - 1 - (i + 1))" by auto
  from Suc.prems rest have "k \<le> length r" by simp
  from Suc.IH[OF nd(3) ne(2) i(2) this] nd ne i rest show ?case
    by (subst add_at_loop.simps) (simp add: deref_def)
qed

lemma del_at_loop_path:
  "path h (Some x) (x # rest) hp \<Longrightarrow> hp \<notin> Some ` set rest \<Longrightarrow>
   k = nat (pos - i) \<Longrightarrow> k \<le> length rest \<Longrightarrow>
   del_at_loop h hp pos i f (Some x) =
     Inr (if k = 0 then f else Some ((x # rest) ! (k - 1)), Some ((x # rest) ! k))"
proof (induction k arbitrary: x rest i f)
  case 0
  then show ?case by (subst del_at_loop.simps) simp
next
  case (Suc k)
  then obtain y r where rest: "rest = y # r" by (cases rest) auto
  with Suc.prems obtain nd where nd: "h x = Some nd" "nextp nd = Some y" "path h (Some y) (y # r) hp"
    by (auto split: option.splits)
  from Suc.prems rest have ne: "hp \<noteq> Some y" "hp \<notin> Some ` set r" by auto
  from Suc.prems have i: "i < pos" "k = nat (pos - (i + 1))" by auto
  from Suc.prems rest have "k \<le> length r" by simp
  from Suc.IH[OF nd(3) ne(2) i(2) this, of "Some x"] nd ne i rest show ?case
    by (subst del_at_loop.simps) (auto simp add: deref_def nth_Cons split: nat.splits)
qed

lemma path_redirect_last:
  "path h p (front @ [z]) q \<Longrightarrow> z \<notin> set front \<Longrightarrow> h z = Some ndz \<Longrightarrow>
   path (h(z := Some (ndz\<lparr>nextp := q'\<rparr>))) p (front @ [z]) q'"
  by (simp add: path_snoc path_upd_other)

lemma path_upd_otherI:
  "path h p as q \<Longrightarrow> a \<notin> set as \<Longrightarrow> path (h(a := v)) p as q"
  by (simp add: path_upd_other)

lemma clist_below_brk:
  "clist l as \<Longrightarrow> a \<in> set as \<Longrightarrow> a < brk l"
proof (rule ccontr)
  assume c: "clist l as" and a: "a \<in> set as" and n: "\<not> a < brk l"
  from a obtain x r where as: "as = x # r" by (cases as) auto
  with c have "path (heap l) (Some x) as (Some x)" by (simp add: clist_def)
  from path_live[OF this a] have "heap l a \<noteq> None" .
  moreover from c n have "heap l a = None" by (simp add: clist_def)
  ultimately show False by simp
qed

lemma clist_brk_fresh: "clist l as \<Longrightarrow> brk l \<notin> set as"
  using clist_below_brk by blast

lemma add_beg_clist:
  assumes c: "clist l as"
  shows "\<exists>l'. add_beg s a l = Some (Inr l') \<and> clist l' (brk l # as) \<and> brk l' = Suc (brk l)"
proof (cases as)
  case Nil
  with c show ?thesis
    by (simp add: clist_def add_beg_def new_node_def set_next_def)
next
  case (Cons x rest)
  define n where "n = brk l"
  define nd0 where "nd0 = \<lparr>song = s, artist = a, nextp = None\<rparr>"
  define h1 where "h1 = (heap l)(n := Some nd0)"
  define z where "z = last (x # rest)"
  define front where "front = butlast (x # rest)"
  have xs: "x # rest = front @ [z]" unfolding front_def z_def by simp
  from c Cons have hd: "head l = Some x" and p: "path (heap l) (Some x) (x # rest) (Some x)"
    and d: "distinct (x # rest)" and ln: "len l = int (length (x # rest))"
    and fr: "\<forall>a. brk l \<le> a \<longrightarrow> heap l a = None"
    by (simp_all add: clist_def)
  from clist_brk_fresh[OF c] Cons have nn: "n \<notin> set (x # rest)" by (simp add: n_def)
  from p nn have p1: "path h1 (Some x) (x # rest) (Some x)"
    unfolding h1_def by (rule path_upd_otherI)
  from d have "Some x \<notin> Some ` set rest" by auto
  from find_last_path[OF p1 this] have fl: "find_last h1 (Some x) (Some x) = Some (Inr (Some z))"
    by (simp add: z_def)
  define h2 where "h2 = h1(n := Some (nd0\<lparr>nextp := Some x\<rparr>))"
  have s1: "set_next h1 (Some n) (Some x) = Inr h2"
    by (simp add: set_next_def h1_def h2_def)
  have zin: "z \<in> set (x # rest)" unfolding z_def by (rule last_in_set) simp
  with nn have zn: "z \<noteq> n" by auto
  from path_live[OF p zin] obtain ndz where ndz: "heap l z = Some ndz" by auto
  with zn have h2z: "h2 z = Some ndz" by (simp add: h2_def h1_def)
  define h3 where "h3 = h2(z := Some (ndz\<lparr>nextp := Some n\<rparr>))"
  from h2z have s2: "set_next h2 (Some z) (Some n) = Inr h3"
    by (simp add: set_next_def h3_def)
  define l' where "l' = l\<lparr>heap := h3, brk := Suc n, head := Some n, len := len l + 1\<rparr>"
  have run: "add_beg s a l = Some (Inr l')"
    using hd fl s1 s2
    by (simp add: add_beg_def new_node_def l'_def n_def[symmetric] nd0_def[symmetric] h1_def[symmetric])
  from d xs have "distinct (front @ [z])" by simp
  then have zfr: "z \<notin> set front" by simp
  from p1 nn have "path h2 (Some x) (x # rest) (Some x)"
    unfolding h2_def by (rule path_upd_otherI)
  then have "path h2 (Some x) (front @ [z]) (Some x)"
    by (simp only: xs)
  from path_redirect_last[OF this zfr h2z] have p3: "path h3 (Some x) (x # rest) (Some n)"
    by (simp add: h3_def xs)
  have h3n: "h3 n = Some (nd0\<lparr>nextp := Some x\<rparr>)"
    using zn by (simp add: h3_def h2_def)
  have fresh: "\<forall>a. Suc n \<le> a \<longrightarrow> h3 a = None"
    using fr zn clist_below_brk[OF c, of z] zin Cons
    by (auto simp: h3_def h2_def h1_def n_def)
  have "clist l' (n # x # rest)"
    using d nn ln p3 h3n fresh by (simp add: clist_def l'_def)
  with run Cons show ?thesis by (simp add: n_def l'_def)
qed

lemma path_insert_after:
  assumes p: "path h p (pre @ t # post) q"
    and d: "distinct (pre @ t # post)"
    and n: "n \<notin> set (pre @ t # post)"
    and t: "h t = Some ndt"
  shows "path (h(n := Some (nd0\<lparr>nextp := nextp ndt\<rparr>), t := Some (ndt\<lparr>nextp := Some n\<rparr>)))
           p (pre @ t # n # post) q"
proof -
  let ?h = "h(n := Some (nd0\<lparr>nextp := nextp ndt\<rparr>), t := Some (ndt\<lparr>nextp := Some n\<rparr>))"
  from p t have p1: "path h p pre (Some t)" and p2: "path h (nextp ndt) post q"
    by (auto simp: path_append)
  from d n have "t \<notin> set pre" "n \<notin> set pre" "t \<notin> set post" "n \<notin> set post" "n \<noteq> t"
    by auto
  with p1 p2 have "path ?h p pre (Some t)" "path ?h (nextp ndt) post q"
    by (simp_all add: path_upd_other)
  moreover have "?h t = Some (ndt\<lparr>nextp := Some n\<rparr>)" by simp
  moreover have "?h n = Some (nd0\<lparr>nextp := nextp ndt\<rparr>)" using \<open>n \<noteq> t\<close> by simp
  ultimately show ?thesis
    by (simp add: path_append)
qed

lemma path_remove_after:
  assumes p: "path h p (pre @ f # t # post) q"
    and d: "distinct (pre @ f # t # post)"
    and f: "h f = Some ndf" and t: "h t = Some ndt"
  shows "path (h(f := Some (ndf\<lparr>nextp := nextp ndt\<rparr>), t := None)) p (pre @ f # post) q"
proof -
  let ?h = "h(f := Some (ndf\<lparr>nextp := nextp ndt\<rparr>), t := None)"
  from p f t have p1: "path h p pre (Some f)" and p2: "path h (nextp ndt) post q"
    by (auto simp: path_append)
  from d have "t \<notin> set pre" "f \<notin> set pre" "t \<notin> set post" "f \<notin> set post" "f \<noteq> t"
    by auto
  with p1 p2 have "path ?h p pre (Some f)" "path ?h (nextp ndt) post q"
    by (simp_all add: path_upd_other)
  moreover have "?h f = Some (ndf\<lparr>nextp := nextp ndt\<rparr>)" using \<open>f \<noteq> t\<close> by simp
  ultimately show ?thesis
    by (simp add: path_append)
qed

lemma add_end_clist:
  assumes c: "clist l as"
  shows "\<exists>l'. add_end s a l = Some (Inr l') \<and> clist l' (as @ [brk l]) \<and> brk l' = Suc (brk l)"
proof (cases as)
  case Nil
  with c show ?thesis
    by (simp add: clist_def add_end_def new_node_def set_next_def)
next
  case (Cons x rest)
  define n where "n = brk l"
  define nd0 where "nd0 = \<lparr>song = s, artist = a, nextp = None\<rparr>"
  define h1 where "h1 = (heap l)(n := Some nd0)"
  define z where "z = last (x # rest)"
  define front where "front = butlast (x # rest)"
  have xs: "x # rest = front @ [z]" unfolding front_def z_def by simp
  from c Cons have hd: "head l = Some x" and p: "path (heap l) (Some x) (x # rest) (Some x)"
    and d: "distinct (x # rest)" and ln: "len l = int (length (x # rest))"
    and fr: "\<forall>a. brk l \<le> a \<longrightarrow> heap l a = None"
    by (simp_all add: clist_def)
  from clist_brk_fresh[OF c] Cons have nn: "n \<notin> set (x # rest)" by (simp add: n_def)
  from p nn have p1: "path h1 (Some x) (x # rest) (Some x)"
    unfolding h1_def by (rule path_upd_otherI)
  from d have "Some x \<notin> Some ` set rest" by auto
  from find_last_path[OF p1 this] have fl: "find_last h1 (Some x) (Some x) = Some (Inr (Some z))"
    by (simp add: z_def)
  have zin: "z \<in> set (x # rest)" unfolding z_def by (rule last_in_set) simp
  with nn have zn: "z \<noteq> n" by auto
  from path_live[OF p zin] obtain ndz where ndz: "heap l z = Some ndz" by auto
  with zn have h1z: "h1 z = Some ndz" by (simp add: h1_def)
  define h2 where "h2 = h1(z := Some (ndz\<lparr>nextp := Some n\<rparr>))"
  from h1z have s1: "set_next h1 (Some z) (Some n) = Inr h2"
    by (simp add: set_next_def h2_def)
  define h3 where "h3 = h2(n := Some (nd0\<lparr>nextp := Some x\<rparr>))"
  have s2: "set_next h2 (Some n) (Some x) = Inr h3"
    using zn by (simp add: set_next_def h3_def h2_def h1_def)
  define l' where "l' = l\<lparr>heap := h3, brk := Suc n, len := len l + 1\<rparr>"
  have run: "add_end s a l = Some (Inr l')"
    using hd fl s1 s2
    by (simp add: add_end_def new_node_def l'_def n_def[symmetric] nd0_def[symmetric] h1_def[symmetric])
  from p xs ndz have nz: "nextp ndz = Some x"
    by (auto simp: path_snoc)
  have h3eq: "h3 = (heap l)(n := Some (nd0\<lparr>nextp := nextp ndz\<rparr>), z := Some (ndz\<lparr>nextp := Some n\<rparr>))"
    using zn by (auto simp: h3_def h2_def h1_def nz fun_eq_iff)
  from p xs have pa: "path (heap l) (Some x) (front @ z # []) (Some x)" by simp
  from d xs have da: "distinct (front @ z # [])" by simp
  from nn xs have na: "n \<notin> set (front @ z # [])" by simp
  from path_insert_after[OF pa da na ndz, of nd0] have p3: "path h3 (Some x) (front @ z # n # []) (Some x)"
    by (simp only: h3eq)
  have asn: "(x # rest) @ [n] = front @ z # n # []" by (simp add: xs)
  have hdx: "hd (front @ [z, n]) = x"
    using xs by (cases front) auto
  have fresh: "\<forall>a. Suc n \<le> a \<longrightarrow> h3 a = None"
    using fr zn clist_below_brk[OF c, of z] zin Cons
    by (auto simp: h3_def h2_def h1_def n_def)
  have "clist l' ((x # rest) @ [n])"
    using d nn ln p3 fresh hd unfolding asn clist_def 
    by (simp add: l'_def xs hdx)
  with run Cons show ?thesis by (simp add: n_def l'_def)
qed

subsection \<open>Each operation on a well-formed ring\<close>

lemma clist_Nil: "clist l [] \<longleftrightarrow> head l = None \<and> len l = 0 \<and> (\<forall>a. brk l \<le> a \<longrightarrow> heap l a = None)"
  by (auto simp: clist_def)

lemma clist_ConsD:
  assumes "clist l (x # rest)"
  shows "head l = Some x" "path (heap l) (Some x) (x # rest) (Some x)" "distinct (x # rest)"
    "len l = int (length (x # rest))" "\<forall>a. brk l \<le> a \<longrightarrow> heap l a = None"
  using assms by (simp_all add: clist_def)

lemma add_at_clist:
  assumes c: "clist l as"
  shows "\<exists>l'. add_at s a pos l = Some (Inr l') \<and>
           clist l' (if 1 \<le> pos \<and> pos \<le> len l + 1
                     then take (nat (pos - 1)) as @ brk l # drop (nat (pos - 1)) as else as)"
proof -
  from c have ln: "len l = int (length as)" by (simp add: clist_def)
  consider "pos < 1 \<or> pos > len l + 1" | "pos = 1" | "pos \<noteq> 1" "pos = len l + 1"
    | "1 < pos" "pos < len l + 1"
    by linarith
  then show ?thesis
  proof cases
    case 1
    with c show ?thesis by (auto simp: add_at_def)
  next
    case 2
    with add_beg_clist[OF c, of s a] ln show ?thesis
      by (auto simp: add_at_def)
  next
    case 3
    with add_end_clist[OF c, of s a] ln show ?thesis
      by (auto simp: add_at_def)
  next
    case 4
    with ln obtain x rest where as: "as = x # rest" by (cases as) auto
    note cd = clist_ConsD[OF c[unfolded as]]
    define n where "n = brk l"
    define nd0 where "nd0 = \<lparr>song = s, artist = a, nextp = None\<rparr>"
    define h1 where "h1 = (heap l)(n := Some nd0)"
    define k where "k = nat (pos - 1 - 1)"
    from 4 ln as have kl: "k \<le> length rest" "k < length as" "Suc k = nat (pos - 1)"
      by (auto simp: k_def)
    from clist_brk_fresh[OF c] as have nn: "n \<notin> set (x # rest)" by (simp add: n_def)
    from cd(2) nn have p1: "path h1 (Some x) (x # rest) (Some x)"
      unfolding h1_def by (rule path_upd_otherI)
    from cd(3) have nh: "Some x \<notin> Some ` set rest" by auto
    define t where "t = as ! k"
    from add_at_loop_path[OF p1 nh k_def kl(1)]
    have lp: "add_at_loop h1 (Some x) pos 1 (Some x) = Inr (Some t)"
      by (simp add: t_def as)
    define pre where "pre = take k as"
    define post where "post = drop (Suc k) as"
    from kl(2) have dec: "as = pre @ t # post"
      unfolding pre_def post_def t_def by (rule id_take_nth_drop)
    then have tin: "t \<in> set as" by (metis in_set_conv_decomp)
    with nn as have tn: "t \<noteq> n" by auto
    from path_live[OF cd(2)] tin as obtain ndt where ndt: "heap l t = Some ndt" by auto
    with tn have d1: "deref h1 (Some t) = Inr ndt" by (simp add: deref_def h1_def)
    define h3 where
      "h3 = (heap l)(n := Some (nd0\<lparr>nextp := nextp ndt\<rparr>), t := Some (ndt\<lparr>nextp := Some n\<rparr>))"
    have s1: "set_next h1 (Some n) (nextp ndt) = Inr (h1(n := Some (nd0\<lparr>nextp := nextp ndt\<rparr>)))"
      by (simp add: set_next_def h1_def)
    have s2: "set_next (h1(n := Some (nd0\<lparr>nextp := nextp ndt\<rparr>))) (Some t) (Some n) = Inr h3"
      using tn ndt by (auto simp: set_next_def h1_def h3_def fun_eq_iff)
    define l' where "l' = l\<lparr>heap := h3, brk := Suc n, len := len l + 1\<rparr>"
    have run: "add_at s a pos l = Some (Inr l')"
      using 4 lp d1 s1 s2 cd(1)
      by (simp add: add_at_def new_node_def l'_def n_def[symmetric] nd0_def[symmetric]
          h1_def[symmetric])
    from cd(2) as dec have pa: "path (heap l) (Some x) (pre @ t # post) (Some x)" by simp
    from cd(3) as dec have da: "distinct (pre @ t # post)" by simp
    from nn as dec have na: "n \<notin> set (pre @ t # post)" by simp
    from path_insert_after[OF pa da na ndt, of nd0]
    have p3: "path h3 (Some x) (pre @ t # n # post) (Some x)"
      by (simp only: h3_def)
    have new: "take (nat (pos - 1)) as @ n # drop (nat (pos - 1)) as = pre @ t # n # post"
      using kl(2) unfolding kl(3)[symmetric] pre_def post_def t_def
      by (simp add: take_Suc_conv_app_nth)
    have hdx: "hd (pre @ t # n # post) = x"
      using dec as by (cases pre) auto
    from clist_below_brk[OF c tin] have "t < n" by (simp add: n_def)
    with cd(5) have fresh: "\<forall>a. Suc n \<le> a \<longrightarrow> h3 a = None"
      by (auto simp: h3_def n_def)
    have "clist l' (pre @ t # n # post)"
      using da na ln dec p3 fresh cd(1) hdx
      by (auto simp: clist_def l'_def)
    with run 4 new show ?thesis by (simp add: n_def)
  qed
qed

lemma del_beg_clist:
  assumes c: "clist l as"
  shows "\<exists>l'. del_beg l = Some (Inr l') \<and> clist l' (tl as) \<and> brk l' = brk l"
proof (cases as)
  case Nil
  with c show ?thesis by (simp add: clist_Nil del_beg_def)
next
  case (Cons x rest)
  note cd = clist_ConsD[OF c[unfolded Cons]]
  from cd(2) obtain hn where hn: "heap l x = Some hn" "path (heap l) (nextp hn) rest (Some x)"
    by (auto split: option.splits)
  show ?thesis
  proof (cases rest)
    case Nil
    with hn have "nextp hn = Some x" by simp
    with hn cd Nil Cons show ?thesis
      by (simp add: del_beg_def deref_def delete_node_def clist_def)
  next
    case rc: (Cons y r)
    with hn have ny: "nextp hn = Some y" and py: "path (heap l) (Some y) (y # r) (Some x)"
      by (auto split: option.splits)
    from cd(3) rc have xy: "x \<noteq> y" by auto
    define z where "z = last (x # rest)"
    define front where "front = butlast (y # r)"
    have yr: "y # r = front @ [z]" unfolding front_def z_def rc by simp
    from cd(3) have "Some x \<notin> Some ` set rest" by auto
    from find_last_path[OF cd(2) this] have fl: "find_last (heap l) (Some x) (Some x) = Some (Inr (Some z))"
      by (simp add: z_def)
    have zin: "z \<in> set (y # r)" using yr by (metis in_set_conv_decomp)
    with cd(3) rc have zx: "z \<noteq> x" by auto
    from path_live[OF py zin] obtain ndz where ndz: "heap l z = Some ndz" by auto
    define h1 where "h1 = (heap l)(z := Some (ndz\<lparr>nextp := Some y\<rparr>))"
    define h2 where "h2 = h1(x := None)"
    have s1: "set_next (heap l) (Some z) (Some y) = Inr h1"
      using ndz by (simp add: set_next_def h1_def)
    have s2: "delete_node h1 (Some x) = Inr h2"
      using hn zx by (simp add: delete_node_def h1_def h2_def)
    define l' where "l' = l\<lparr>len := len l - 1, heap := h2, head := Some y\<rparr>"
    have run: "del_beg l = Some (Inr l')"
      using cd(1) hn ny xy fl s1 s2
      by (simp add: del_beg_def deref_def l'_def Let_def)
    from cd(3) rc yr have "distinct (front @ [z])" by simp
    then have zf: "z \<notin> set front" by simp
    from py yr have "path (heap l) (Some y) (front @ [z]) (Some x)" by simp
    from path_redirect_last[OF this zf ndz, of "Some y"] have "path h1 (Some y) (y # r) (Some y)"
      by (simp add: h1_def yr)
    moreover from cd(3) rc have "x \<notin> set (y # r)" by auto
    ultimately have p2: "path h2 (Some y) (y # r) (Some y)"
      unfolding h2_def by (rule path_upd_otherI)
    from cd(5) clist_below_brk[OF c, of z] zin Cons rc have fresh: "\<forall>a. brk l \<le> a \<longrightarrow> h2 a = None"
      by (auto simp: h2_def h1_def)
    have "clist l' (y # r)"
      using cd(3,4) rc p2 fresh by (simp add: clist_def l'_def)
    with run Cons rc show ?thesis by (simp add: l'_def)
  qed
qed

lemma del_end_clist:
  assumes c: "clist l as"
  shows "\<exists>l'. del_end l = Some (Inr l') \<and> clist l' (butlast as) \<and> brk l' = brk l"
proof (cases as)
  case Nil
  with c show ?thesis by (simp add: clist_Nil del_end_def)
next
  case (Cons x rest)
  note cd = clist_ConsD[OF c[unfolded Cons]]
  from cd(2) obtain hn where hn: "heap l x = Some hn" "path (heap l) (nextp hn) rest (Some x)"
    by (auto split: option.splits)
  show ?thesis
  proof (cases rest)
    case Nil
    with hn have "nextp hn = Some x" by simp
    with hn cd Nil Cons show ?thesis
      by (simp add: del_end_def deref_def delete_node_def clist_def)
  next
    case rc: (Cons y r)
    with hn have ny: "nextp hn = Some y" by (auto split: option.splits)
    from cd(3) rc have xy: "x \<noteq> y" by auto
    define z where "z = last (x # rest)"
    define f where "f = last (butlast (x # rest))"
    define pre where "pre = butlast (butlast (x # rest))"
    have dec: "x # rest = pre @ f # z # []"
      unfolding pre_def f_def z_def rc
      by (metis append_butlast_last_id append_Cons append_Nil butlast.simps(2) list.distinct(1) append_assoc)
    from cd(3) have "Some x \<notin> Some ` set rest" by auto
    from del_end_loop_path[OF cd(2) this, of None]
    have lp: "del_end_loop (heap l) (Some x) None (Some x) = Some (Inr (Some f, Some z))"
      by (simp add: z_def f_def rc)
    have fin: "f \<in> set (x # rest)" and zin: "z \<in> set (x # rest)"
      unfolding dec by simp_all
    from cd(3) dec have fz: "f \<noteq> z" by (metis distinct.simps(2) distinct_append list.set_intros(1))
    from path_live[OF cd(2) fin] obtain ndf where ndf: "heap l f = Some ndf" by auto
    from path_live[OF cd(2) zin] obtain ndz where ndz: "heap l z = Some ndz" by auto
    from cd(2) ndz ndf have nz: "nextp ndz = Some x"
      unfolding dec by (auto simp: path_append)
    define h2 where "h2 = (heap l)(f := Some (ndf\<lparr>nextp := nextp ndz\<rparr>), z := None)"
    have s1: "set_next (heap l) (Some f) (Some x) = Inr ((heap l)(f := Some (ndf\<lparr>nextp := Some x\<rparr>)))"
      using ndf by (simp add: set_next_def)
    have s2: "delete_node ((heap l)(f := Some (ndf\<lparr>nextp := Some x\<rparr>))) (Some z) = Inr h2"
      using ndz fz by (simp add: delete_node_def h2_def nz)
    define l' where "l' = l\<lparr>len := len l - 1, heap := h2\<rparr>"
    have run: "del_end l = Some (Inr l')"
      using cd(1) hn ny xy lp s1 s2
      by (simp add: del_end_def deref_def l'_def Let_def)
    from cd(2) dec have pa: "path (heap l) (Some x) (pre @ f # z # []) (Some x)" by simp
    from cd(3) dec have da: "distinct (pre @ f # z # [])" by simp
    from path_remove_after[OF pa da ndf ndz] have p2: "path h2 (Some x) (pre @ f # []) (Some x)"
      by (simp only: h2_def)
    have bl: "butlast (x # rest) = pre @ [f]"
      unfolding dec by (simp add: butlast_append)
    have hdx: "hd (pre @ [f]) = x"
      using dec by (cases pre) auto
    from cd(5) have fresh: "\<forall>a. brk l \<le> a \<longrightarrow> h2 a = None"
      using clist_below_brk[OF c, of f] fin Cons by (auto simp: h2_def)
    have "clist l' (pre @ [f])"
      using da cd(1,4) dec p2 fresh hdx by (auto simp: clist_def l'_def)
    with run Cons bl show ?thesis by (simp add: l'_def)
  qed
qed

lemma del_at_clist:
  assumes c: "clist l as"
  shows "\<exists>l'. del_at pos l = Some (Inr l') \<and>
           clist l' (if 1 \<le> pos \<and> pos \<le> len l
                     then take (nat (pos - 1)) as @ drop (nat pos) as else as)"
proof -
  from c have ln: "len l = int (length as)" by (simp add: clist_def)
  consider "as = []" | "as \<noteq> []" "pos < 1 \<or> pos > len l" | "as \<noteq> []" "pos = 1"
    | "as \<noteq> []" "pos \<noteq> 1" "pos = len l" | "as \<noteq> []" "1 < pos" "pos < len l"
    by linarith
  then show ?thesis
  proof cases
    case 1
    with c show ?thesis by (auto simp: del_at_def clist_Nil)
  next
    case 2
    with c show ?thesis by (auto simp: del_at_def clist_def)
  next
    case 3
    with c have "head l \<noteq> None" by (auto simp: clist_def)
    moreover from 3 have "1 \<le> length as" by (cases as) auto
    ultimately show ?thesis
      using 3 del_beg_clist[OF c] ln by (auto simp: del_at_def drop_Suc)
  next
    case 4
    with c have "head l \<noteq> None" by (auto simp: clist_def)
    moreover from 4 have "1 \<le> length as" by (cases as) auto
    moreover have "nat (int (length as) - 1) = length as - 1" by simp
    ultimately show ?thesis
      using 4 del_end_clist[OF c] ln by (auto simp: del_at_def butlast_conv_take)
  next
    case 5
    then obtain x rest where as: "as = x # rest" by (cases as) auto
    note cd = clist_ConsD[OF c[unfolded as]]
    define k where "k = nat (pos - 1)"
    from 5 ln as have kl: "k \<le> length rest" "k < length as" "0 < k" "Suc k = nat pos"
      by (auto simp: k_def)
    from cd(3) have nh: "Some x \<notin> Some ` set rest" by auto
    define t where "t = as ! k"
    define f where "f = as ! (k - 1)"
    from del_at_loop_path[OF cd(2) nh k_def kl(1), of None] kl(3)
    have lp: "del_at_loop (heap l) (Some x) pos 1 None (Some x) = Inr (Some f, Some t)"
      by (simp add: t_def f_def as)
    define pre where "pre = take (k - 1) as"
    define post where "post = drop (Suc k) as"
    from kl(2) have "as = take (k - 1) as @ as ! (k - 1) # drop (Suc (k - 1)) as"
      by (intro id_take_nth_drop) simp
    moreover from kl(2,3) have "drop (Suc (k - 1)) as = as ! k # drop (Suc k) as"
      by (simp add: Cons_nth_drop_Suc)
    ultimately have dec: "as = pre @ f # t # post"
      by (simp add: pre_def post_def f_def t_def)
    then have "set (x # rest) = set (pre @ f # t # post)"
      using as by simp
    then have tin: "t \<in> set (x # rest)" and fin: "f \<in> set (x # rest)"
      by simp_all
    from path_live[OF cd(2) tin] obtain ndt where ndt: "heap l t = Some ndt" by auto
    from path_live[OF cd(2) fin] obtain ndf where ndf: "heap l f = Some ndf" by auto
    from cd(3) as dec have ft: "f \<noteq> t" by (metis distinct.simps(2) distinct_append list.set_intros(1))
    define h2 where "h2 = (heap l)(f := Some (ndf\<lparr>nextp := nextp ndt\<rparr>), t := None)"
    have d1: "deref (heap l) (Some t) = Inr ndt" using ndt by (simp add: deref_def)
    have s1: "set_next (heap l) (Some f) (nextp ndt) = Inr ((heap l)(f := Some (ndf\<lparr>nextp := nextp ndt\<rparr>)))"
      using ndf by (simp add: set_next_def)
    have s2: "delete_node ((heap l)(f := Some (ndf\<lparr>nextp := nextp ndt\<rparr>))) (Some t) = Inr h2"
      using ndt ft by (simp add: delete_node_def h2_def)
    define l' where "l' = l\<lparr>heap := h2, len := len l - 1\<rparr>"
    have run: "del_at pos l = Some (Inr l')"
      using 5 cd(1) lp d1 s1 s2 by (simp add: del_at_def l'_def)
    from cd(2) as dec have pa: "path (heap l) (Some x) (pre @ f # t # post) (Some x)" by simp
    from cd(3) as dec have da: "distinct (pre @ f # t # post)" by simp
    from path_remove_after[OF pa da ndf ndt] have p2: "path h2 (Some x) (pre @ f # post) (Some x)"
      by (simp only: h2_def)
    from kl(2,3) have "take k as = take (k - 1) as @ [as ! (k - 1)]"
      using take_Suc_conv_app_nth[of "k - 1" as] by simp
    then have new: "take (nat (pos - 1)) as @ drop (nat pos) as = pre @ f # post"
      unfolding kl(4)[symmetric] k_def[symmetric] by (simp add: pre_def post_def f_def)
    have hdx: "hd (pre @ f # post) = x"
      using dec as by (cases pre) auto
    from cd(5) have fresh: "\<forall>a. brk l \<le> a \<longrightarrow> h2 a = None"
      using clist_below_brk[OF c, of f] fin as by (auto simp: h2_def)
    have "clist l' (pre @ f # post)"
      using da ln dec p2 fresh cd(1) hdx by (auto simp: clist_def l'_def)
    with run 5 new show ?thesis by simp
  qed
qed

lemma clear_loop_path:
  "path h p cs None \<Longrightarrow> distinct cs \<Longrightarrow>
   clear_loop h p = Some (Inr (\<lambda>a. if a \<in> set cs then None else h a))"
proof (induction cs arbitrary: h p)
  case Nil
  then show ?case by (subst clear_loop.simps) simp
next
  case (Cons c r)
  then obtain nd where nd: "p = Some c" "h c = Some nd" "path h (nextp nd) r None"
    by (auto split: option.splits)
  from Cons.prems have cr: "c \<notin> set r" "distinct r" by auto
  from nd(3) cr(1) have "path (h(c := None)) (nextp nd) r None"
    by (rule path_upd_otherI)
  from Cons.IH[OF this cr(2)]
  have rec: "clear_loop (h(c := None)) (nextp nd) =
      Some (Inr (\<lambda>a. if a \<in> set r then None else (h(c := None)) a))" .
  have eq: "(\<lambda>a. if a \<in> set r then None else (h(c := None)) a) =
      (\<lambda>a. if a \<in> set (c # r) then None else h a)"
    by (auto simp: fun_eq_iff)
  have "clear_loop h p = clear_loop (h(c := None)) (nextp nd)"
    by (subst clear_loop.simps) (simp add: nd deref_def delete_node_def)
  with rec eq show ?case by simp
qed

lemma clear_empty: "head l = None \<Longrightarrow> clear l = Some (Inr l)"
  by (simp add: clear_def)

lemma clear_nonempty:
  assumes c: "clist l as" and ne: "as \<noteq> []"
  shows "clear l = Some (Inl DoubleFree)"
proof -
  from ne obtain x rest where as: "as = x # rest" by (cases as) auto
  note cd = clist_ConsD[OF c[unfolded as]]
  from cd(2) obtain hn where hn: "heap l x = Some hn" "path (heap l) (nextp hn) rest (Some x)"
    by (auto split: option.splits)
  from hn(2) have nn: "nextp hn \<noteq> None" by (cases rest) auto
  define h1 where "h1 = (heap l)(x := Some (hn\<lparr>nextp := None\<rparr>))"
  have s1: "set_next (heap l) (Some x) None = Inr h1"
    using hn by (simp add: set_next_def h1_def)
  from cd(3) have xr: "x \<notin> set rest" by simp
  with hn(2) have "path h1 (nextp hn) rest (Some x)"
    unfolding h1_def by (rule path_upd_otherI)
  then have p1: "path h1 (nextp hn) (rest @ [x]) None"
    by (simp add: path_snoc h1_def)
  from cd(3) have "distinct (rest @ [x])" by simp
  from clear_loop_path[OF p1 this]
  have lp: "clear_loop h1 (nextp hn) = Some (Inr (\<lambda>a. if a \<in> set (rest @ [x]) then None else h1 a))" .
  show ?thesis
    using cd(1) hn nn s1 lp
    by (simp add: clear_def deref_def delete_node_def)
qed

subsection \<open>Sequences of operations\<close>

lemma clist_list_inv: "clist l as \<Longrightarrow> list_inv l"
proof (cases as)
  case Nil
  assume "clist l as"
  with Nil show ?thesis by (simp add: clist_Nil list_inv_def)
next
  case (Cons x rest)
  assume "clist l as"
  note cd = clist_ConsD[OF this[unfolded Cons]]
  from cd(4) have n: "nat (len l) = length (x # rest)" by simp
  from path_follow_next[OF cd(2)] path_cells_from[OF cd(2)] cd(1,3,4)
  have "circular l"
    unfolding circular_def n by simp
  then show ?thesis by (simp add: list_inv_def)
qed

lemma LinkedList_new_clist: "clist LinkedList_new []"
  by (simp add: clist_Nil LinkedList_new_def)

lemma apply_op_clist:
  assumes c: "clist l as"
  shows "(\<exists>l' as'. apply_op x l = Some (Inr l') \<and> clist l' as') \<or>
         (x = Clear \<and> as \<noteq> [] \<and> apply_op x l = Some (Inl DoubleFree))"
proof (cases x)
  case (Add_beg s a)
  with add_beg_clist[OF c, of s a] show ?thesis by auto
next
  case (Add_end s a)
  with add_end_clist[OF c, of s a] show ?thesis by auto
next
  case (Add_at s a pos)
  with add_at_clist[OF c, of s a pos] show ?thesis by auto
next
  case Del_beg
  with del_beg_clist[OF c] show ?thesis by auto
next
  case Del_end
  with del_end_clist[OF c] show ?thesis by auto
next
  case (Del_at pos)
  with del_at_clist[OF c, of pos] show ?thesis by auto
next
  case Clear
  show ?thesis
  proof (cases "as = []")
    case True
    with c have "head l = None" by (simp add: clist_Nil)
    from clear_empty[OF this] c Clear show ?thesis by auto
  next
    case False
    from clear_nonempty[OF c False] Clear False show ?thesis by simp
  qed
qed

lemma run_ops_clist:
  "clist l as \<Longrightarrow>
   (\<exists>l' as'. run_ops xs l = Some (Inr l') \<and> clist l' as') \<or>
   run_ops xs l = Some (Inl DoubleFree)"
proof (induction xs arbitrary: l as)
  case Nil
  then show ?case by auto
next
  case (Cons x xs)
  from apply_op_clist[OF Cons.prems, of x]
  consider l' as' where "apply_op x l = Some (Inr l')" "clist l' as'"
    | "apply_op x l = Some (Inl DoubleFree)"
    by blast
  then show ?case
  proof cases
    case 1
    from Cons.IH[OF 1(2)] 1(1) show ?thesis by simp
  next
    case 2
    then show ?thesis by simp
  qed
qed

lemma run_ops_without_Clear:
  "clist l as \<Longrightarrow> Clear \<notin> set xs \<Longrightarrow> \<exists>l' as'. run_ops xs l = Some (Inr l') \<and> clist l' as'"
proof (induction xs arbitrary: l as)
  case Nil
  then show ?case by auto
next
  case (Cons x xs)
  from Cons.prems have "x \<noteq> Clear" "Clear \<notin> set xs" by auto
  with apply_op_clist[OF Cons.prems(1), of x]
  obtain l' as' where 1: "apply_op x l = Some (Inr l')" "clist l' as'"
    by blast
  from Cons.IH[OF 1(2) \<open>Clear \<notin> set xs\<close>] 1(1) show ?case by simp
qed

text \<open>
  Every sequence of calls from the empty list returns; when it returns a list, the list is
  empty with \<open>len = 0\<close> or a ring of \<open>len\<close> cells; and a sequence that never calls
  \<^verbatim>\<open>clear\<close> always returns such a list.
\<close>

lemma run_ops_returns: "run_ops xs LinkedList_new \<noteq> None"
  using run_ops_clist[OF LinkedList_new_clist, of xs] by auto

lemma run_ops_list_inv: "run_ops xs LinkedList_new = Some (Inr l) \<Longrightarrow> list_inv l"
  using run_ops_clist[OF LinkedList_new_clist, of xs] clist_list_inv by auto

lemma run_ops_without_Clear_list_inv:
  "Clear \<notin> set xs \<Longrightarrow> \<exists>l. run_ops xs LinkedList_new = Some (Inr l) \<and> list_inv l"
  using run_ops_without_Clear[OF LinkedList_new_clist, of xs] clist_list_inv by blast

text \<open>
  \<^verbatim>\<open>clear\<close> on any non-empty ring releases the head cell twice: \<open>clear_nonempty\<close>.
  The loop, started at \<^verbatim>\<open>head->next\<close> after \<^verbatim>\<open>head->next = nullptr\<close>, stops only at a
  null \<^verbatim>\<open>next\<close>, which is the one of the head cell, so the loop releases the head cell
  itself, and \<^verbatim>\<open>delete head\<close> after the loop releases it again.
\<close>

text \<open>
  Claim C10. After any sequence of \<^verbatim>\<open>add_beg\<close>, \<^verbatim>\<open>add_end\<close>, \<^verbatim>\<open>add_at\<close>, \<^verbatim>\<open>del_beg\<close>,
  \<^verbatim>\<open>del_end\<close>, \<^verbatim>\<open>del_at\<close> and \<^verbatim>\<open>clear\<close> from the empty list, the list is to be empty
  with \<open>len = 0\<close> or a ring of \<open>len\<close> cells. The sequence \<^verbatim>\<open>add_beg("a", "b"); clear()\<close>
  does not reach such a state: \<^verbatim>\<open>clear\<close> releases the only cell twice.
\<close>

theorem clear_after_add_beg_double_free:
  "run_ops [Add_beg ''a'' ''b'', Clear] LinkedList_new = Some (Inl DoubleFree)"
  by (simp add: LinkedList_new_def add_beg_def new_node_def set_next_def clear_def deref_def
      delete_node_def clear_loop.simps)


section \<open>Properties of the traversal drivers\<close>

subsection \<open>Logs\<close>

lemma plays_append [simp]: "plays (xs @ ys) = plays xs @ plays ys"
  by (induction xs rule: plays.induct) auto

lemma pushes_append [simp]: "pushes (xs @ ys) = pushes xs @ pushes ys"
  by (induction xs rule: pushes.induct) auto

lemma pops_append [simp]: "pops (xs @ ys) = pops xs @ pops ys"
  by (induction xs rule: pops.induct) auto

lemma pushes_map_Push [simp]: "pushes (map Push ps) = ps"
  by (induction ps) auto

lemma plays_map_Push [simp]: "plays (map Push ps) = []"
  by (induction ps) auto

lemma pops_map_Push [simp]: "pops (map Push ps) = []"
  by (induction ps) auto

lemma push_loop_path:
  "path h (Some x) (x # rest) hp \<Longrightarrow> hp \<notin> Some ` set rest \<Longrightarrow>
   push_loop h hp (Some x) (stk, tlog) =
     Some (Inr (rev (map Some (x # rest)) @ stk, tlog @ map Push (map Some (x # rest))))"
proof (induction rest arbitrary: x stk tlog)
  case Nil
  then show ?case
    by (subst push_loop.simps) (auto simp: deref_def push_def split: option.splits)
next
  case (Cons y r)
  from Cons.prems obtain nd where nd: "h x = Some nd" "nextp nd = Some y" "path h (Some y) (y # r) hp"
    by (auto split: option.splits)
  from Cons.prems have "hp \<noteq> Some y" "hp \<notin> Some ` set r" by auto
  with nd Cons.IH[of y "Some x # stk" "tlog @ [Push (Some x)]"] show ?case
    by (subst push_loop.simps) (simp add: deref_def push_def)
qed

text \<open>What one track contributes, by the code its session returns.\<close>

lemma play_track_cases:
  assumes "play k p \<noteq> None"
  obtains (stop) "play k p = Some 2" "play_track play answer k p = Some (Inl [Play p, Stopped_by_user])"
  | (declined) "play k p \<noteq> Some 2" "play k p \<noteq> Some 0" "\<not> is_yes (answer k)"
      "play_track play answer k p = Some (Inl [Play p, Prompt, Stopped_by_user])"
  | (skipped) "play k p \<noteq> Some 2" "play k p \<noteq> Some 0" "is_yes (answer k)"
      "play_track play answer k p = Some (Inr [Play p, Prompt])"
  | (played) "play k p = Some 0" "play_track play answer k p = Some (Inr [Play p])"
proof -
  from assms obtain r where r: "play k p = Some r" by auto
  consider "r = 2" | "r \<noteq> 2" "r \<noteq> 0" "\<not> is_yes (answer k)"
    | "r \<noteq> 2" "r \<noteq> 0" "is_yes (answer k)" | "r = 0"
    by blast
  then show thesis
  proof cases
    case 1
    with r show thesis by (intro stop) (simp_all add: play_track_def)
  next
    case 2
    with r show thesis by (intro declined) (simp_all add: play_track_def)
  next
    case 3
    with r show thesis by (intro skipped) (simp_all add: play_track_def)
  next
    case 4
    with r show thesis by (intro played) (simp_all add: play_track_def)
  qed
qed

lemma play_track_never_stops:
  assumes "always_returns play" "never_stops play answer"
  shows "\<exists>evs. play_track play answer k p = Some (Inr evs) \<and> plays evs = [p] \<and> pops evs = [] \<and> pushes evs = []"
proof -
  from assms(1) have "play k p \<noteq> None" by (simp add: always_returns_def)
  then show ?thesis
  proof (cases rule: play_track_cases[where answer = answer])
    case stop
    with assms(2) show ?thesis by (auto simp: never_stops_def)
  next
    case declined
    with assms(2) show ?thesis by (auto simp: never_stops_def)
  next
    case skipped
    then show ?thesis by simp
  next
    case played
    then show ?thesis by simp
  qed
qed

lemma play_track_shape:
  assumes "play k p \<noteq> None"
  shows "\<exists>evs. (play_track play answer k p = Some (Inl evs) \<or> play_track play answer k p = Some (Inr evs))
            \<and> plays evs = [p] \<and> pops evs = [] \<and> pushes evs = []"
  using assms by (cases rule: play_track_cases[where answer = answer]) auto

lemma no_stop_halts: "no_stop play k tlog \<Longrightarrow> halts_on_stop play k (tlog @ rest) = halts_on_stop play (k + length (plays tlog)) rest"
  by (induction play k tlog rule: no_stop.induct) auto

lemma no_stop_append:
  "no_stop play k (xs @ ys) \<longleftrightarrow> no_stop play k xs \<and> no_stop play (k + length (plays xs)) ys"
  by (induction play k xs rule: no_stop.induct) auto

lemma play_track_Inr:
  "play_track play answer k p = Some (Inr evs) \<Longrightarrow>
   play k p \<noteq> Some 2 \<and> (evs = [Play p] \<or> evs = [Play p, Prompt])"
  by (auto simp: play_track_def split: option.splits if_splits)

lemma play_track_Inl:
  "play_track play answer k p = Some (Inl evs) \<Longrightarrow>
   (play k p = Some 2 \<and> evs = [Play p, Stopped_by_user]) \<or>
   (play k p \<noteq> Some 2 \<and> evs = [Play p, Prompt, Stopped_by_user])"
  by (auto simp: play_track_def split: option.splits if_splits)

lemma play_track_Inl_halts:
  "play_track play answer k p = Some (Inl evs) \<Longrightarrow> halts_on_stop play k (pre_evs @ evs)"
  if "no_stop play k pre_evs" "plays pre_evs = []"
  using that play_track_Inl[of play answer k p evs]
  by (auto simp: no_stop_halts)

lemma play_track_Inr_no_stop:
  "play_track play answer k p = Some (Inr evs) \<Longrightarrow> no_stop play k evs \<and> length (plays evs) = 1"
  using play_track_Inr[of play answer k p evs] by auto

lemma loop_ok_prepend:
  assumes "no_stop play k evs" "length (plays evs) = m"
    and "prepend evs r = Some (Inr out)"
    and "\<And>x. r = Some (Inr x) \<Longrightarrow> loop_ok play (k + m) x"
  shows "loop_ok play k out"
proof -
  from assms(3) obtain tlog stopped where r: "r = Some (Inr (tlog, stopped))" and out: "out = (evs @ tlog, stopped)"
    by (cases "(evs, r)" rule: prepend.cases) auto
  from assms(4)[OF r] have "loop_ok play (k + m) (tlog, stopped)" .
  with assms(1,2) out show ?thesis
    by (auto simp: loop_ok_def no_stop_halts no_stop_append)
qed

lemma seq_loop_ok:
  "0 \<le> i \<Longrightarrow> seq_loop play answer h n i current = Some (Inr out) \<Longrightarrow> loop_ok play (nat i) out"
proof (induction play answer h n i current arbitrary: out rule: seq_loop.induct)
  case (1 play answer h n i current)
  show ?case
  proof (cases "i < n \<and> current \<noteq> None")
    case False
    with "1.prems" show ?thesis
      by (subst (asm) seq_loop.simps) (auto simp: loop_ok_def split: if_splits)
  next
    case True
    with "1.prems" obtain nd where nd: "deref h current = Inr nd"
      by (subst (asm) seq_loop.simps) (auto split: sum.splits)
    from True nd "1.prems" obtain t where t: "play_track play answer (nat i) (song nd) = Some t"
      by (subst (asm) seq_loop.simps) (auto split: option.splits)
    show ?thesis
    proof (cases t)
      case (Inl evs)
      with True nd t "1.prems" have out: "out = (evs, True)"
        by (subst (asm) seq_loop.simps) auto
      from play_track_Inl_halts[of play "nat i" "[]" answer "song nd" evs] t Inl
      have "halts_on_stop play (nat i) evs" by simp
      with out show ?thesis by (simp add: loop_ok_def)
    next
      case (Inr evs)
      let ?sl = "if i < n - 1 then [Sleep_seconds 2] else []"
      from True nd t Inr "1.prems"
      have pre: "prepend (evs @ ?sl) (seq_loop play answer h n (i + 1) (nextp nd)) = Some (Inr out)"
        by (subst (asm) seq_loop.simps) auto
      from play_track_Inr_no_stop[of play answer "nat i" "song nd" evs] t Inr
      have ns: "no_stop play (nat i) (evs @ ?sl)" "length (plays (evs @ ?sl)) = 1"
        by (auto simp: no_stop_append)
      have ih: "\<And>x. seq_loop play answer h n (i + 1) (nextp nd) = Some (Inr x) \<Longrightarrow>
                  loop_ok play (nat i + 1) x"
        using "1.IH"[OF _ _ nd t[unfolded Inr]] True "1.prems"(1)
        by (simp add: nat_add_distrib)
      from loop_ok_prepend[OF ns pre ih] show ?thesis .
    qed
  qed
qed

lemma repeat_loop_ok:
  "0 \<le> i \<Longrightarrow> repeat_loop play answer h limit i temp = Some (Inr out) \<Longrightarrow> loop_ok play (nat i) out"
proof (induction play answer h limit i temp arbitrary: out rule: repeat_loop.induct)
  case (1 play answer h limit i temp)
  show ?case
  proof (cases "i < limit \<and> temp \<noteq> None")
    case False
    with "1.prems" show ?thesis
      by (subst (asm) repeat_loop.simps) (auto simp: loop_ok_def split: if_splits)
  next
    case True
    with "1.prems" obtain nd where nd: "deref h temp = Inr nd"
      by (subst (asm) repeat_loop.simps) (auto split: sum.splits)
    from True nd "1.prems" obtain t where t: "play_track play answer (nat i) (song nd) = Some t"
      by (subst (asm) repeat_loop.simps) (auto split: option.splits)
    show ?thesis
    proof (cases t)
      case (Inl evs)
      with True nd t "1.prems" have out: "out = (evs, True)"
        by (subst (asm) repeat_loop.simps) auto
      from play_track_Inl_halts[of play "nat i" "[]" answer "song nd" evs] t Inl
      have "halts_on_stop play (nat i) evs" by simp
      with out show ?thesis by (simp add: loop_ok_def)
    next
      case (Inr evs)
      let ?sl = "if i < limit - 1 then [Sleep_seconds 2] else []"
      from True nd t Inr "1.prems"
      have pre: "prepend (evs @ ?sl) (repeat_loop play answer h limit (i + 1) (nextp nd)) = Some (Inr out)"
        by (subst (asm) repeat_loop.simps) auto
      from play_track_Inr_no_stop[of play answer "nat i" "song nd" evs] t Inr
      have ns: "no_stop play (nat i) (evs @ ?sl)" "length (plays (evs @ ?sl)) = 1"
        by (auto simp: no_stop_append)
      have ih: "\<And>x. repeat_loop play answer h limit (i + 1) (nextp nd) = Some (Inr x) \<Longrightarrow>
                  loop_ok play (nat i + 1) x"
        using "1.IH"[OF _ _ nd t[unfolded Inr]] True "1.prems"(1)
        by (simp add: nat_add_distrib)
      from loop_ok_prepend[OF ns pre ih] show ?thesis .
    qed
  qed
qed

lemma pop_loop_ok:
  "1 \<le> count \<Longrightarrow> pop_loop play answer h count stk = Some (Inr out) \<Longrightarrow>
   loop_ok play (count - 1) out"
proof (induction play answer h count stk arbitrary: out rule: pop_loop.induct)
  case (1 play answer h count stk)
  obtain item stk1 where p: "pop stk = (item, stk1)" by (cases "pop stk")
  show ?case
  proof (cases item)
    case None
    with p "1.prems" show ?thesis
      by (subst (asm) pop_loop.simps) (auto simp: loop_ok_def)
  next
    case (Some a)
    with p "1.prems" obtain nd where nd: "deref h (Some a) = Inr nd"
      by (subst (asm) pop_loop.simps) (auto split: sum.splits)
    from p Some nd "1.prems" obtain t where t: "play_track play answer (count - 1) (song nd) = Some t"
      by (subst (asm) pop_loop.simps) (auto split: option.splits)
    show ?thesis
    proof (cases t)
      case (Inl evs)
      with p Some nd t "1.prems" have out: "out = (Pop (Some a) # evs, True)"
        by (subst (asm) pop_loop.simps) auto
      from play_track_Inl_halts[of play "count - 1" "[Pop (Some a)]" answer "song nd" evs] t Inl
      have "halts_on_stop play (count - 1) (Pop (Some a) # evs)" by simp
      with out show ?thesis by (simp add: loop_ok_def)
    next
      case (Inr evs)
      let ?sl = "if \<not> isEmpty stk1 then [Sleep_seconds 2] else []"
      from p Some nd t Inr "1.prems"
      have pre: "prepend (Pop (Some a) # evs @ ?sl) (pop_loop play answer h (count + 1) stk1) = Some (Inr out)"
        by (subst (asm) pop_loop.simps) auto
      from play_track_Inr_no_stop[of play answer "count - 1" "song nd" evs] t Inr
      have ns: "no_stop play (count - 1) (Pop (Some a) # evs @ ?sl)"
        "length (plays (Pop (Some a) # evs @ ?sl)) = 1"
        by (auto simp: no_stop_append)
      have ih: "\<And>x. pop_loop play answer h (count + 1) stk1 = Some (Inr x) \<Longrightarrow>
                  loop_ok play (count - 1 + 1) x"
        using "1.IH"[OF p[symmetric] Some nd t[unfolded Inr]] "1.prems"(1)
        by simp
      from loop_ok_prepend[OF ns pre ih] show ?thesis .
    qed
  qed
qed

lemma no_stop_map_Push [simp]: "no_stop play k (map Push ps)"
  by (induction ps) auto

lemma push_loop_only_pushes_aux:
  "push_loop h hp temp sl = Some y \<Longrightarrow>
   \<forall>out. y = Inr out \<longrightarrow> (\<exists>ps. snd out = snd sl @ map Push ps)"
proof (induction rule: push_loop.raw_induct[rotated 1, consumes 1, case_names step])
  case (step push_loop' h hp temp sl y)
  show ?case
  proof (cases "deref h temp")
    case (Inl e)
    with step(2) show ?thesis by auto
  next
    case (Inr nd)
    show ?thesis
    proof (cases "nextp nd \<noteq> hp")
      case True
      with Inr step(2)
      have "push_loop' h hp (nextp nd) (push temp (fst sl), snd sl @ [Push temp]) = Some y"
        by simp
      from step(1)[OF this] have "\<forall>out. y = Inr out \<longrightarrow> (\<exists>ps. snd out = snd sl @ map Push (temp # ps))"
        by auto
      then show ?thesis by blast
    next
      case False
      with Inr step(2) have "\<forall>out. y = Inr out \<longrightarrow> snd out = snd sl @ map Push [temp]"
        by auto
      then show ?thesis by blast
    qed
  qed
qed

lemma push_loop_only_pushes:
  "push_loop h hp temp sl = Some (Inr out) \<Longrightarrow> \<exists>ps. snd out = snd sl @ map Push ps"
  using push_loop_only_pushes_aux by blast

lemma finish_halts:
  assumes "finish l r = Some (Inr (tlog, l'))"
    and "\<And>x. r = Some (Inr x) \<Longrightarrow> loop_ok play 0 x"
  shows "halts_on_stop play 0 tlog \<and> l' = l"
proof -
  from assms(1) obtain lg stopped where r: "r = Some (Inr (lg, stopped))"
    and tlog: "tlog = (if stopped then lg else lg @ [Complete])" and l: "l' = l"
    by (cases "(l, r)" rule: finish.cases) auto
  from assms(2)[OF r] tlog l show ?thesis
    by (auto simp: loop_ok_def no_stop_halts)
qed

lemma playWithControls_halts:
  assumes "playWithControls play answer l = Some (Inr (tlog, l'))"
  shows "halts_on_stop play 0 tlog \<and> l' = l"
proof (cases "head l = None")
  case True
  with assms show ?thesis by (simp add: playWithControls_def)
next
  case False
  with assms have "finish l (seq_loop play answer (heap l) (len l) 0 (head l)) = Some (Inr (tlog, l'))"
    by (simp add: playWithControls_def)
  then show ?thesis
    by (rule finish_halts) (use seq_loop_ok[of 0 play answer "heap l" "len l" "head l"] in simp)
qed

lemma playWithControlsRepeat_halts:
  assumes "playWithControlsRepeat play answer rounds l = Some (Inr (tlog, l'))"
  shows "halts_on_stop play 0 tlog \<and> l' = l"
proof (cases "head l = None \<or> rounds \<le> 0")
  case True
  with assms show ?thesis by (auto simp: playWithControlsRepeat_def split: if_splits)
next
  case False
  with assms have "finish l (repeat_loop play answer (heap l) (len l * rounds) 0 (head l)) = Some (Inr (tlog, l'))"
    by (auto simp: playWithControlsRepeat_def Let_def split: if_splits)
  then show ?thesis
    by (rule finish_halts) (use repeat_loop_ok[of 0 play answer "heap l" "len l * rounds" "head l"] in simp)
qed

lemma playWithControlsReverse_halts:
  assumes "playWithControlsReverse play answer l = Some (Inr (tlog, l'))"
  shows "halts_on_stop play 0 tlog \<and> l' = l"
proof (cases "head l = None")
  case True
  with assms show ?thesis by (simp add: playWithControlsReverse_def)
next
  case False
  with assms obtain nodeStack pushed where
    pl: "push_loop (heap l) (head l) (head l) ([], []) = Some (Inr (nodeStack, pushed))"
    and f: "finish l (prepend pushed (pop_loop play answer (heap l) 1 nodeStack)) = Some (Inr (tlog, l'))"
    by (auto simp: playWithControlsReverse_def split: option.splits sum.splits)
  from push_loop_only_pushes[OF pl] have pushed: "no_stop play 0 pushed \<and> plays pushed = []"
    by auto
  show ?thesis
  proof (rule finish_halts[OF f])
    fix x assume "prepend pushed (pop_loop play answer (heap l) 1 nodeStack) = Some (Inr x)"
    then show "loop_ok play 0 x"
      using pushed pop_loop_ok[of 1 play answer "heap l" nodeStack]
      by (intro loop_ok_prepend[of play 0 pushed 0]) auto
  qed
qed

lemma playWithControlsSingle_halts:
  assumes "playWithControlsSingle play choice l = Some (Inr (tlog, l'))"
  shows "halts_on_stop play 0 tlog \<and> l' = l"
  using assms
  by (auto simp: playWithControlsSingle_def split: if_splits sum.splits option.splits)

subsection \<open>The order of the tracks\<close>

lemma prepend_Some:
  "r = Some (Inr (tlog, stopped)) \<Longrightarrow> prepend evs r = Some (Inr (evs @ tlog, stopped))"
  by simp

lemma pop_loop_live:
  assumes ar: "always_returns play" and live: "\<forall>b\<in>set bs. h b \<noteq> None"
  shows "\<exists>tlog stopped m. pop_loop play answer h c (map Some bs) = Some (Inr (tlog, stopped)) \<and>
           m \<le> length bs \<and> pops tlog = map Some (take m bs) \<and>
           plays tlog = map (song_at h) (take m bs) \<and> pushes tlog = [] \<and>
           (\<not> stopped \<longrightarrow> m = length bs) \<and> (never_stops play answer \<longrightarrow> \<not> stopped)"
  using live
proof (induction bs arbitrary: c)
  case Nil
  have "pop_loop play answer h c (map Some []) = Some (Inr ([], False))"
    by (subst pop_loop.simps) (simp add: pop_def)
  then show ?case by auto
next
  case (Cons b bs)
  from Cons.prems obtain nd where nd: "h b = Some nd" by auto
  then have d: "deref h (Some b) = Inr nd" and sg: "song_at h b = song nd"
    by (simp_all add: deref_def song_at_def)
  have p: "pop (Some b # map Some bs) = (Some b, map Some bs)" by (simp add: pop_def)
  from ar have ret: "play (c - 1) (song nd) \<noteq> None" by (simp add: always_returns_def)
  from play_track_shape[where play = play and k = "c - 1" and p = "song nd" and answer = answer, OF ret]
  obtain evs where
    evs: "play_track play answer (c - 1) (song nd) = Some (Inl evs) \<or>
          play_track play answer (c - 1) (song nd) = Some (Inr evs)"
    and sh: "plays evs = [song nd]" "pops evs = []" "pushes evs = []"
    by blast
  from evs show ?case
  proof
    assume l: "play_track play answer (c - 1) (song nd) = Some (Inl evs)"
    then have run: "pop_loop play answer h c (map Some (b # bs)) = Some (Inr (Pop (Some b) # evs, True))"
      by (subst pop_loop.simps) (simp add: p d)
    have "never_stops play answer \<Longrightarrow> False"
      using play_track_never_stops[OF ar, of answer "c - 1" "song nd"] l by auto
    with run sh sg show ?thesis
      by (intro exI[of _ "Pop (Some b) # evs"] exI[of _ True] exI[of _ 1]) auto
  next
    assume r: "play_track play answer (c - 1) (song nd) = Some (Inr evs)"
    let ?sl = "if \<not> isEmpty (map Some bs) then [Sleep_seconds 2] else []"
    from Cons.prems have "\<forall>b\<in>set bs. h b \<noteq> None" by simp
    from Cons.IH[OF this, of "c + 1"] obtain tlog stopped m where
      ih: "pop_loop play answer h (c + 1) (map Some bs) = Some (Inr (tlog, stopped))"
        "m \<le> length bs" "pops tlog = map Some (take m bs)"
        "plays tlog = map (song_at h) (take m bs)" "pushes tlog = []"
        "\<not> stopped \<longrightarrow> m = length bs" "never_stops play answer \<longrightarrow> \<not> stopped"
      by blast
    have run: "pop_loop play answer h c (map Some (b # bs)) =
        Some (Inr ((Pop (Some b) # evs @ ?sl) @ tlog, stopped))"
      using r ih(1) by (subst pop_loop.simps) (simp add: p d)
    have sl: "plays ?sl = []" "pops ?sl = []" "pushes ?sl = []" by auto
    show ?thesis
      using run ih(2-) sh sg sl
      by (intro exI[of _ "(Pop (Some b) # evs @ ?sl) @ tlog"] exI[of _ stopped] exI[of _ "Suc m"])
         (simp del: append_Cons)
  qed
qed

lemma path_next:
  "path h p cs q \<Longrightarrow> m < length cs \<Longrightarrow>
   \<exists>nd. h (cs ! m) = Some nd \<and> nextp nd = (if Suc m < length cs then Some (cs ! Suc m) else q)"
proof (induction cs arbitrary: p m)
  case Nil
  then show ?case by simp
next
  case (Cons c cs)
  from Cons.prems(1) obtain nd where nd: "h c = Some nd" "path h (nextp nd) cs q"
    by (auto split: option.splits)
  show ?case
  proof (cases m)
    case 0
    with nd show ?thesis by (cases cs) (auto split: option.splits)
  next
    case (Suc m')
    with Cons.prems(2) have "m' < length cs" by simp
    from Cons.IH[OF nd(2) this] Suc show ?thesis by (auto split: if_splits)
  qed
qed

lemma ring_next:
  assumes "path h (Some x) (x # rest) (Some x)" "m < length (x # rest)"
  shows "\<exists>nd. h ((x # rest) ! m) = Some nd \<and>
              nextp nd = Some ((x # rest) ! (Suc m mod length (x # rest)))"
proof -
  from path_next[OF assms] obtain nd where
    nd: "h ((x # rest) ! m) = Some nd"
      "nextp nd = (if Suc m < length (x # rest) then Some ((x # rest) ! Suc m) else Some x)"
    by blast
  show ?thesis
  proof (cases "Suc m < length (x # rest)")
    case True
    with nd show ?thesis by simp
  next
    case False
    with assms(2) have "m = length rest" by simp
    with nd show ?thesis by simp
  qed
qed

lemma repeat_loop_ring:
  assumes ar: "always_returns play"
    and ring: "\<forall>m<length as. \<exists>nd. h (as ! m) = Some nd \<and> nextp nd = Some (as ! (Suc m mod length as))"
    and ne: "as \<noteq> []"
  shows "0 \<le> i \<Longrightarrow> d = nat (limit - i) \<Longrightarrow>
     \<exists>tlog stopped m. repeat_loop play answer h limit i (Some (as ! (nat i mod length as))) =
         Some (Inr (tlog, stopped)) \<and> m \<le> d \<and>
       plays tlog = map (\<lambda>j. song_at h (as ! (j mod length as))) [nat i ..< nat i + m] \<and>
       pushes tlog = [] \<and> pops tlog = [] \<and>
       (\<not> stopped \<longrightarrow> m = d) \<and> (never_stops play answer \<longrightarrow> \<not> stopped)"
proof (induction d arbitrary: i)
  case 0
  then have "\<not> i < limit" by simp
  then have "repeat_loop play answer h limit i (Some (as ! (nat i mod length as))) = Some (Inr ([], False))"
    by (subst repeat_loop.simps) simp
  then show ?case by auto
next
  case (Suc d)
  let ?L = "length as"
  let ?a = "as ! (nat i mod ?L)"
  from Suc.prems have lt: "i < limit" by simp
  from ne have "nat i mod ?L < ?L" by simp
  with ring obtain nd where nd: "h ?a = Some nd" "nextp nd = Some (as ! (Suc (nat i mod ?L) mod ?L))"
    by blast
  then have d: "deref h (Some ?a) = Inr nd" and sg: "song_at h ?a = song nd"
    by (simp_all add: deref_def song_at_def)
  from Suc.prems(1) have nx: "Suc (nat i mod ?L) mod ?L = nat (i + 1) mod ?L"
    by (simp add: nat_add_distrib mod_Suc_eq)
  from ar have ret: "play (nat i) (song nd) \<noteq> None" by (simp add: always_returns_def)
  from play_track_shape[where play = play and k = "nat i" and p = "song nd" and answer = answer, OF ret]
  obtain evs where
    evs: "play_track play answer (nat i) (song nd) = Some (Inl evs) \<or>
          play_track play answer (nat i) (song nd) = Some (Inr evs)"
    and sh: "plays evs = [song nd]" "pops evs = []" "pushes evs = []"
    by blast
  from evs show ?case
  proof
    assume l: "play_track play answer (nat i) (song nd) = Some (Inl evs)"
    with lt d have run: "repeat_loop play answer h limit i (Some ?a) = Some (Inr (evs, True))"
      by (subst repeat_loop.simps) simp
    have "never_stops play answer \<Longrightarrow> False"
      using play_track_never_stops[OF ar, of answer "nat i" "song nd"] l by auto
    with run sh sg show ?thesis
      by (intro exI[of _ evs] exI[of _ True] exI[of _ 1]) auto
  next
    assume r: "play_track play answer (nat i) (song nd) = Some (Inr evs)"
    let ?sl = "if i < limit - 1 then [Sleep_seconds 2] else []"
    from Suc.prems have "0 \<le> i + 1" "d = nat (limit - (i + 1))" by auto
    from Suc.IH[OF this] obtain tlog stopped m where
      ih: "repeat_loop play answer h limit (i + 1) (Some (as ! (nat (i + 1) mod ?L))) =
             Some (Inr (tlog, stopped))"
        "m \<le> d"
        "plays tlog = map (\<lambda>j. song_at h (as ! (j mod ?L))) [nat (i + 1) ..< nat (i + 1) + m]"
        "pushes tlog = []" "pops tlog = []"
        "\<not> stopped \<longrightarrow> m = d" "never_stops play answer \<longrightarrow> \<not> stopped"
      by blast
    from lt d r nd(2) nx ih(1)
    have run: "repeat_loop play answer h limit i (Some ?a) = Some (Inr ((evs @ ?sl) @ tlog, stopped))"
      by (subst repeat_loop.simps) simp
    have sl: "plays ?sl = []" "pops ?sl = []" "pushes ?sl = []" by auto
    from Suc.prems(1) have si: "nat (i + 1) = Suc (nat i)" by simp
    have "[nat i ..< nat i + Suc m] = nat i # [Suc (nat i) ..< Suc (nat i) + m]"
      by (simp add: upt_rec)
    with ih(3) sh sg sl si
    have pl: "plays ((evs @ ?sl) @ tlog) =
        map (\<lambda>j. song_at h (as ! (j mod ?L))) [nat i ..< nat i + Suc m]"
      by simp
    show ?thesis
      using run ih(2,4-) sh sl pl
      by (intro exI[of _ "(evs @ ?sl) @ tlog"] exI[of _ stopped] exI[of _ "Suc m"]) simp
  qed
qed

lemma clist_ring:
  assumes "clist l as"
  shows "\<forall>m<length as. \<exists>nd. heap l (as ! m) = Some nd \<and> nextp nd = Some (as ! (Suc m mod length as))"
proof (cases as)
  case Nil
  then show ?thesis by simp
next
  case (Cons x rest)
  note cd = clist_ConsD[OF assms[unfolded Cons]]
  from ring_next[OF cd(2)] Cons show ?thesis by blast
qed

text \<open>
  Claim C7. On a non-empty playlist with the entries \<open>as\<close> in order from the head, reverse
  traversal first pushes every entry, head to tail, and only then pops; the entries
  popped and the songs played are the first \<open>m\<close> of the reversed playlist, in that
  order, and all of them unless the user stops the traversal (by code 2, or by declining
  to go on after a failed track); the list comes back as it was given. The sessions are
  taken to return.
\<close>

theorem reverse_traversal_order:
  assumes c: "clist l as" and ne: "as \<noteq> []" and ar: "always_returns play"
  shows "\<exists>tlog m. playWithControlsReverse play answer l = Some (Inr (tlog, l)) \<and>
           pushes tlog = map Some as \<and> m \<le> length as \<and>
           pops tlog = map Some (take m (rev as)) \<and>
           plays tlog = map (song_at (heap l)) (take m (rev as)) \<and>
           (never_stops play answer \<longrightarrow> m = length as) \<and>
           (\<exists>rest. tlog = map Push (map Some as) @ rest \<and> pushes rest = [])"
proof -
  from ne obtain x rest where as: "as = x # rest" by (cases as) auto
  note cd = clist_ConsD[OF c[unfolded as]]
  from cd(3) have nh: "Some x \<notin> Some ` set rest" by auto
  from push_loop_path[OF cd(2) nh, of "[]" "[]"]
  have pl: "push_loop (heap l) (head l) (head l) ([], []) =
      Some (Inr (rev (map Some as), map Push (map Some as)))"
    by (simp add: cd(1) as)
  have live: "\<forall>b\<in>set (rev as). heap l b \<noteq> None"
    using path_live[OF cd(2)] as by auto
  from pop_loop_live[OF ar live, of answer 1] obtain tlog stopped m where
    pp: "pop_loop play answer (heap l) 1 (map Some (rev as)) = Some (Inr (tlog, stopped))"
      "m \<le> length (rev as)" "pops tlog = map Some (take m (rev as))"
      "plays tlog = map (song_at (heap l)) (take m (rev as))" "pushes tlog = []"
      "\<not> stopped \<longrightarrow> m = length (rev as)" "never_stops play answer \<longrightarrow> \<not> stopped"
    by blast
  let ?tail = "if stopped then tlog else tlog @ [Complete]"
  let ?tlog = "map Push (map Some as) @ ?tail"
  have run: "playWithControlsReverse play answer l = Some (Inr (?tlog, l))"
    using pl pp(1) cd(1) by (simp add: playWithControlsReverse_def rev_map)
  have t: "pushes ?tail = []" "pops ?tail = pops tlog" "plays ?tail = plays tlog"
    using pp(5) by auto
  show ?thesis
    using run t pp(2-4,6,7)
    by (intro exI[of _ ?tlog] exI[of _ m]) (auto simp del: map_map)
qed

text \<open>The playlist [A, B, C]: pushed 0, 1, 2 and popped 2, 1, 0, playing C, B, A.\<close>

theorem reverse_traversal_order_witness:
  "\<exists>tlog. playWithControlsReverse (\<lambda>k p. Some 0) (\<lambda>k. CHR ''n'') abc_playlist =
             Some (Inr (tlog, abc_playlist)) \<and>
         pushes tlog = [Some 0, Some 1, Some 2] \<and>
         pops tlog = [Some 2, Some 1, Some 0] \<and>
         plays tlog = [''C.ogg'', ''B.wav'', ''A.mp3'']"
proof -
  have c: "clist abc_playlist [0, 1, 2]"
    by (simp add: clist_def abc_playlist_def)
  have ar: "always_returns (\<lambda>k p. Some 0)"
    by (simp add: always_returns_def)
  have ns: "never_stops (\<lambda>k p. Some 0) (\<lambda>k. CHR ''n'')"
    by (simp add: never_stops_def)
  from reverse_traversal_order[OF c _ ar, of "\<lambda>k. CHR ''n''"] ns
  obtain tlog where
    "playWithControlsReverse (\<lambda>k p. Some 0) (\<lambda>k. CHR ''n'') abc_playlist = Some (Inr (tlog, abc_playlist))"
    "pushes tlog = map Some [0, 1, 2]"
    "pops tlog = map Some (take 3 (rev [0, 1, 2]))"
    "plays tlog = map (song_at (heap abc_playlist)) (take 3 (rev [0, 1, 2]))"
    by auto
  then show ?thesis
    by (intro exI[of _ tlog]) (simp add: song_at_def abc_playlist_def)
qed

lemma upt_mod_concat:
  "L = length ss \<Longrightarrow> map (\<lambda>i. ss ! (i mod L)) [0 ..< L * n] = concat (replicate n ss)"
proof (induction n)
  case 0
  then show ?case by simp
next
  case (Suc n)
  have "[0 ..< L * n + L] = [0 ..< L * n] @ [L * n ..< L * n + L]"
    by (rule upt_add_eq_append) simp
  moreover have "map (\<lambda>j. j + L * n) [0 ..< L] = [L * n ..< L + L * n]"
    by (rule map_add_upt)
  ultimately have "[0 ..< L * Suc n] = [0 ..< L * n] @ map (\<lambda>j. j + L * n) [0 ..< L]"
    by (simp add: ac_simps)
  then have "map (\<lambda>i. ss ! (i mod L)) [0 ..< L * Suc n] =
      map (\<lambda>i. ss ! (i mod L)) [0 ..< L * n] @ map (\<lambda>j. ss ! j) [0 ..< L]"
    by (simp add: comp_def)
  also have "map (\<lambda>j. ss ! j) [0 ..< L] = ss"
    using Suc.prems by (simp add: map_nth)
  also have "map (\<lambda>i. ss ! (i mod L)) [0 ..< L * n] = concat (replicate n ss)"
    using Suc by simp
  finally have step: "map (\<lambda>i. ss ! (i mod L)) [0 ..< L * Suc n] = concat (replicate n ss) @ ss" .
  have "replicate (Suc n) ss = replicate n ss @ [ss]"
    by (simp add: replicate_append_same)
  then have "concat (replicate (Suc n) ss) = concat (replicate n ss) @ ss"
    by (simp only: concat_append) simp
  with step show ?case by simp
qed

text \<open>
  Claim C8. On a non-empty playlist of \<open>L\<close> entries and for \<open>N \<ge> 1\<close> rounds with \<open>N * L\<close>
  within the range of \<^verbatim>\<open>int\<close>, repeat traversal plays, as its \<open>i\<close>-th track counted from 0,
  entry \<open>i mod L\<close> of the playlist, for the first \<open>m\<close> values of \<open>i\<close>; unless the user stops
  the traversal, \<open>m = N * L\<close> and the tracks played are the playlist \<open>N\<close> times over, one
  round straight after the other. The sessions are taken to return.
\<close>

theorem repeat_traversal_order:
  assumes c: "clist l as" and ne: "as \<noteq> []" and r1: "1 \<le> rounds"
    and fits: "int (length as) * rounds \<le> INT_MAX" and ar: "always_returns play"
  shows "\<exists>tlog m. playWithControlsRepeat play answer rounds l = Some (Inr (tlog, l)) \<and>
           m \<le> length as * nat rounds \<and>
           plays tlog = map (\<lambda>i. song_at (heap l) (as ! (i mod length as))) [0 ..< m] \<and>
           (never_stops play answer \<longrightarrow>
              m = length as * nat rounds \<and>
              plays tlog = concat (replicate (nat rounds) (map (song_at (heap l)) as)))"
proof -
  from ne obtain x rest where as: "as = x # rest" by (cases as) auto
  note cd = clist_ConsD[OF c[unfolded as]]
  let ?lim = "len l * rounds"
  from cd(4) as have ln: "len l = int (length as)" by simp
  have d: "length as * nat rounds = nat (?lim - 0)"
    using r1 by (simp add: ln nat_mult_distrib)
  from repeat_loop_ring[OF ar clist_ring[OF c] ne, of 0 "length as * nat rounds" ?lim answer] d
  obtain tlog stopped m where
    rl: "repeat_loop play answer (heap l) ?lim 0 (Some (as ! 0)) = Some (Inr (tlog, stopped))"
      "m \<le> length as * nat rounds"
      "plays tlog = map (\<lambda>j. song_at (heap l) (as ! (j mod length as))) [0 ..< m]"
      "\<not> stopped \<longrightarrow> m = length as * nat rounds" "never_stops play answer \<longrightarrow> \<not> stopped"
    by auto
  let ?tlog = "if stopped then tlog else tlog @ [Complete]"
  from r1 ln have "0 \<le> ?lim" by simp
  then have nonneg: "\<not> ?lim < - INT_MAX - 1"
    by (simp add: INT_MAX_def)
  have run: "playWithControlsRepeat play answer rounds l = Some (Inr (?tlog, l))"
    using rl(1) cd(1) r1 fits nonneg as
    by (simp add: playWithControlsRepeat_def ln Let_def)
  have pl: "plays ?tlog = plays tlog" by simp
  have cc: "map (\<lambda>i. song_at (heap l) (as ! (i mod length as))) [0 ..< length as * nat rounds] =
      concat (replicate (nat rounds) (map (song_at (heap l)) as))"
  proof -
    have "map (\<lambda>i. song_at (heap l) (as ! (i mod length as))) [0 ..< length as * nat rounds] =
        map (\<lambda>i. map (song_at (heap l)) as ! (i mod length as)) [0 ..< length as * nat rounds]"
      using ne by (intro map_cong) simp_all
    also have "\<dots> = concat (replicate (nat rounds) (map (song_at (heap l)) as))"
      using upt_mod_concat[of "length as" "map (song_at (heap l)) as" "nat rounds"] by simp
    finally show ?thesis .
  qed
  show ?thesis
    using run rl(2-) cc unfolding pl[symmetric]
    by (intro exI[of _ ?tlog] exI[of _ m]) auto
qed

text \<open>Three rounds over two entries play 1, 2, 1, 2, 1, 2.\<close>

theorem repeat_traversal_order_witness:
  "\<exists>tlog. playWithControlsRepeat (\<lambda>k p. Some 0) (\<lambda>k. CHR ''n'') 3 ab_playlist =
             Some (Inr (tlog, ab_playlist)) \<and>
         plays tlog = [''1.mp3'', ''2.mp3'', ''1.mp3'', ''2.mp3'', ''1.mp3'', ''2.mp3'']"
proof -
  have c: "clist ab_playlist [0, 1]"
    by (simp add: clist_def ab_playlist_def)
  have ar: "always_returns (\<lambda>k p. Some 0)"
    by (simp add: always_returns_def)
  have ns: "never_stops (\<lambda>k p. Some 0) (\<lambda>k. CHR ''n'')"
    by (simp add: never_stops_def)
  have fits: "int (length [0::nat, 1]) * 3 \<le> INT_MAX"
    by (simp add: INT_MAX_def)
  from repeat_traversal_order[OF c _ _ fits ar, of "\<lambda>k. CHR ''n''"] ns
  obtain tlog where
    "playWithControlsRepeat (\<lambda>k p. Some 0) (\<lambda>k. CHR ''n'') 3 ab_playlist = Some (Inr (tlog, ab_playlist))"
    "plays tlog = concat (replicate (nat 3) (map (song_at (heap ab_playlist)) [0, 1]))"
    by auto
  then show ?thesis
    by (intro exI[of _ tlog]) (simp add: song_at_def ab_playlist_def numeral_3_eq_3)
qed


section \<open>Properties of a session\<close>

subsection \<open>The loops leave the handles and the terminal alone\<close>

lemma same_resources_refl [simp]: "same_resources w w"
  by (simp add: same_resources_def)

lemma same_resources_trans:
  "same_resources w w1 \<Longrightarrow> same_resources w1 w2 \<Longrightarrow> same_resources w w2"
  by (simp add: same_resources_def)

lemma same_resources_emit [simp]: "same_resources w (emit ev w)"
  by (simp add: same_resources_def emit_def)

lemma same_resources_emit2: "same_resources w w1 \<Longrightarrow> same_resources w (emit ev w1)"
  by (simp add: same_resources_def emit_def)

lemma getch_resources: "same_resources w (snd (getch c w))"
  by (simp add: getch_def same_resources_def emit_def Let_def)

lemma progress_resources:
  "same_resources w w1 \<Longrightarrow> same_resources w (snd (progress fp pos tot st w1))"
  by (simp add: progress_def Let_def same_resources_emit2)

lemma mp3_key_resources:
  "same_resources w w1 \<Longrightarrow> same_resources w (snd (mp3_key r t k st w1))"
  by (simp add: mp3_key_def Let_def same_resources_emit2)

lemma snd_key_resources:
  "same_resources w w1 \<Longrightarrow> same_resources w (snd (snd_key r ret k st w1))"
  by (simp add: snd_key_def Let_def same_resources_emit2)

lemma poll_keys_resources:
  assumes "\<And>k st w0 w1. same_resources w0 w1 \<Longrightarrow> same_resources w0 (snd (dispatch k st w1))"
  shows "same_resources w (snd (poll_keys dispatch e st w))"
proof (cases "key e")
  case None
  then show ?thesis by (simp add: poll_keys_def Let_def)
next
  case (Some c)
  have "same_resources w (snd (getch c (emit Kbhit w)))"
    using getch_resources[of "emit Kbhit w" c] same_resources_emit[of w Kbhit]
    by (blast intro: same_resources_trans)
  from assms[OF this] Some show ?thesis
    by (simp add: poll_keys_def Let_def getch_def split: prod.splits)
qed

lemma mp3_decode_resources:
  "same_resources w w1 \<Longrightarrow> same_resources w (snd (snd (mp3_decode fp tot e st w1)))"
  by (auto simp: mp3_decode_def Let_def same_resources_emit2 progress_resources
      split: mpg123_result.splits prod.splits)

lemma mp3_body_resources:
  "same_resources w (snd (snd (mp3_body fp r tot e st w)))"
proof -
  obtain st1 w1 where pk: "poll_keys (mp3_key r tot) e st w = (st1, w1)"
    by (cases "poll_keys (mp3_key r tot) e st w")
  from poll_keys_resources[of "mp3_key r tot" w e st, OF mp3_key_resources] pk
  have "same_resources w w1" by simp
  with pk show ?thesis
    by (simp add: mp3_body_def same_resources_emit2 mp3_decode_resources)
qed

lemma progress_resources_eq:
  "progress fp pos tot st w1 = (st', w') \<Longrightarrow> same_resources w w1 \<Longrightarrow> same_resources w w'"
  using progress_resources[of w w1 fp pos tot st] by simp

lemma snd_body_resources:
  "same_resources w (snd (snd (snd_body fp r tot e st w)))"
proof -
  obtain st1 w1 where pk: "poll_keys (snd_key r (seek_result e)) e st w = (st1, w1)"
    by (cases "poll_keys (snd_key r (seek_result e)) e st w")
  from poll_keys_resources[of "snd_key r (seek_result e)" w e st, OF snd_key_resources] pk
  have sr: "same_resources w w1" by simp
  then have "same_resources w (emit (Sf_seek 0 SEEK_CUR) (emit Pa_simple_write (emit Sf_readf_short w1)))"
    by (intro same_resources_emit2)
  with pk sr show ?thesis
    by (auto simp: snd_body_def Let_def same_resources_emit2 split: prod.splits
        intro!: progress_resources)
qed

lemma while_not_stopped_resources:
  assumes body: "\<And>e st w. same_resources w (snd (snd (body e st w)))"
  shows "while_not_stopped body steps st w = Some (st', w') \<Longrightarrow> same_resources w w'"
proof (induction steps arbitrary: st w)
  case Nil
  then show ?case by (simp split: if_splits)
next
  case (Cons e es)
  show ?case
  proof (cases "should_stop st")
    case True
    with Cons.prems show ?thesis by simp
  next
    case False
    obtain fl st1 w1 where b: "body e st w = (fl, st1, w1)" by (cases "body e st w")
    with body[of w e st] have sr: "same_resources w w1" by simp
    show ?thesis
    proof (cases fl)
      case Continue
      with False b Cons.prems have "while_not_stopped body es st1 w1 = Some (st', w')" by simp
      from Cons.IH[OF this] sr show ?thesis by (rule same_resources_trans[rotated])
    next
      case Break
      with False b Cons.prems sr show ?thesis by simp
    qed
  qed
qed

lemma while_true_resources:
  assumes body: "\<And>e st w. same_resources w (snd (snd (body e st w)))"
  shows "while_true body steps st w = Some (st', w') \<Longrightarrow> same_resources w w'"
proof (induction steps arbitrary: st w)
  case Nil
  then show ?case by simp
next
  case (Cons e es)
  obtain fl st1 w1 where b: "body e st w = (fl, st1, w1)" by (cases "body e st w")
  with body[of w e st] have sr: "same_resources w w1" by simp
  show ?case
  proof (cases fl)
    case Continue
    with b Cons.prems have "while_true body es st1 w1 = Some (st', w')" by simp
    from Cons.IH[OF this] sr show ?thesis by (rule same_resources_trans[rotated])
  next
    case Break
    with b Cons.prems sr show ?thesis by simp
  qed
qed

subsection \<open>Every way out cleans up\<close>

lemmas handle_defs =
  mpg123_init_def mpg123_exit_def mpg123_new_def mpg123_delete_def mpg123_open_def
  mpg123_close_def sf_open_def sf_close_def pa_simple_new_def pa_simple_free_def

lemma mp3_opening_Inl:
  assumes "mp3_opening env (fresh_world t f) = Inl w1"
  shows "\<not> (mpg123_init_ok env \<and> mpg123_new_ok env \<and> mpg123_open_ok env \<and>
            mpg123_getformat_ok env \<and> mpg123_format_ok env \<and> pa_simple_new_ok env)"
    and "tty w1 = t" and "stdin_flags w1 = f" and "settled (mpg123_lib w1)" and "settled (mh w1)"
    and "settled (mh_file w1)" and "sndfile w1 = Absent" and "pa_stream w1 = Absent"
    and "trace w1 = []"
  using assms
  by (auto simp: mp3_opening_def fresh_world_def handle_defs settled_def Let_def split: if_splits)

lemma mp3_opening_Inr:
  assumes "mp3_opening env (fresh_world t f) = Inr w1"
  shows "mpg123_init_ok env \<and> mpg123_new_ok env \<and> mpg123_open_ok env \<and>
         mpg123_getformat_ok env \<and> mpg123_format_ok env \<and> pa_simple_new_ok env"
    and "tty w1 = t" and "stdin_flags w1 = f" and "mpg123_lib w1 = Live" and "mh w1 = Live"
    and "mh_file w1 = Live" and "sndfile w1 = Absent" and "pa_stream w1 = Live"
  using assms
  by (auto simp: mp3_opening_def fresh_world_def handle_defs settled_def Let_def split: if_splits)

lemma snd_session_cleanup:
  assumes run: "snd_session fp env steps (fresh_world t f) = Some (rc, w')"
    and fo: "fopen_ok env" and nm: "\<not> isMP3File filename"
  shows "cleaned_up filename env t f rc w'"
proof (cases "sf_open_ok env \<and> pa_simple_new_ok env")
  case False
  with run fo nm show ?thesis
    by (auto simp: snd_session_def cleaned_up_def reaches_loop_def fresh_world_def handle_defs
        settled_def Let_def split: if_splits)
next
  case True
  define w2 where "w2 = pa_simple_new (sf_open (fresh_world t f))"
  define w4 where "w4 = w2\<lparr>tty := (tty w2)\<lparr>icanon := False, echo := False\<rparr>,
                          stdin_flags := (stdin_flags w2)\<lparr>o_nonblock := True\<rparr>\<rparr>"
  have w2: "tty w2 = t" "stdin_flags w2 = f" "sndfile w2 = Live" "pa_stream w2 = Live"
    "mh w2 = Absent" "mh_file w2 = Absent" "mpg123_lib w2 = Absent"
    by (simp_all add: w2_def fresh_world_def handle_defs)
  from run True obtain st w5 where
    lp: "while_not_stopped (snd_body fp (rate env) (total_length env)) steps lstate_init w4 = Some (st, w5)"
    and res: "rc = exit_code st"
      "w' = sf_close (pa_simple_free (drain_if_finished st (w5\<lparr>tty := t, stdin_flags := f\<rparr>)))"
    by (auto simp: snd_session_def Let_def w4_def w2_def[symmetric] w2 split: option.splits)
  from while_not_stopped_resources[OF snd_body_resources lp]
  have "same_resources w4 w5" .
  with w2 have w5: "sndfile w5 = Live" "pa_stream w5 = Live" "mh w5 = Absent" "mh_file w5 = Absent"
    "mpg123_lib w5 = Absent"
    by (simp_all add: same_resources_def w4_def)
  from True fo nm have "reaches_loop filename env" by (simp add: reaches_loop_def)
  with res w5 nm show ?thesis
    by (simp add: cleaned_up_def handle_defs drain_if_finished_def emit_def settled_def)
qed

lemma playerWithControls_mp3_cleanup:
  assumes run: "playerWithControls fp filename env steps (fresh_world t f) = Some (rc, w')"
    and fo: "fopen_ok env" and mp: "isMP3File filename"
  shows "cleaned_up filename env t f rc w'"
proof (cases "mp3_opening env (fresh_world t f)")
  case (Inl w1)
  with run fo mp have "rc = 1" "w' = w1" by (simp_all add: playerWithControls_def)
  with mp3_opening_Inl[OF Inl] mp show ?thesis
    by (simp add: cleaned_up_def reaches_loop_def settled_def)
next
  case (Inr w1)
  note o = mp3_opening_Inr[OF Inr]
  define w3 where "w3 = w1\<lparr>tty := (tty w1)\<lparr>icanon := False, echo := False\<rparr>,
                          stdin_flags := (stdin_flags w1)\<lparr>o_nonblock := True\<rparr>\<rparr>"
  from run fo mp Inr obtain st w4 where
    lp: "while_not_stopped (mp3_body fp (rate env) (total_length env)) steps lstate_init w3 = Some (st, w4)"
    and res: "rc = exit_code st"
      "w' = mpg123_exit (mpg123_delete (mpg123_close (pa_simple_free
              (drain_if_finished st (w4\<lparr>tty := t, stdin_flags := f\<rparr>)))))"
    by (auto simp: playerWithControls_def Let_def w3_def o split: option.splits)
  from while_not_stopped_resources[OF mp3_body_resources lp]
  have "same_resources w3 w4" .
  with o have w4: "sndfile w4 = Absent" "pa_stream w4 = Live" "mh w4 = Live" "mh_file w4 = Live"
    "mpg123_lib w4 = Live"
    by (simp_all add: same_resources_def w3_def)
  from o(1) fo mp have "reaches_loop filename env" by (simp add: reaches_loop_def)
  with res w4 mp show ?thesis
    by (simp add: cleaned_up_def handle_defs drain_if_finished_def emit_def settled_def)
qed

lemma mp3_decode_resources0: "same_resources w (snd (snd (mp3_decode fp tot e st w)))"
  by (rule mp3_decode_resources) simp

lemma player_mp3_cleanup:
  assumes run: "player fp filename env steps (fresh_world t f) = Some (rc, w')"
    and fo: "fopen_ok env" and mp: "isMP3File filename"
  shows "cleaned_up filename env t f rc w'"
proof (cases "mp3_opening env (fresh_world t f)")
  case (Inl w1)
  with run fo mp have "rc = 1" "w' = w1" by (simp_all add: player_def)
  with mp3_opening_Inl[OF Inl] mp show ?thesis
    by (simp add: cleaned_up_def reaches_loop_def settled_def)
next
  case (Inr w1)
  note o = mp3_opening_Inr[OF Inr]
  from run fo mp Inr obtain st w2 where
    lp: "while_true (mp3_decode fp (total_length env)) steps lstate_init w1 = Some (st, w2)"
    and res: "w' = mpg123_exit (mpg123_delete (mpg123_close (pa_simple_free
              (if \<not> playback_error st then emit Pa_simple_drain w2 else w2))))"
    by (auto simp: player_def Let_def split: option.splits)
  from while_true_resources[OF mp3_decode_resources0 lp]
  have "same_resources w1 w2" .
  with o have w2: "sndfile w2 = Absent" "pa_stream w2 = Live" "mh w2 = Live" "mh_file w2 = Live"
    "mpg123_lib w2 = Live" "tty w2 = t" "stdin_flags w2 = f"
    by (simp_all add: same_resources_def)
  from o(1) fo mp have "reaches_loop filename env" by (simp add: reaches_loop_def)
  with res w2 mp show ?thesis
    by (simp add: cleaned_up_def handle_defs emit_def settled_def)
qed

lemma no_fopen_cleanup:
  "\<not> fopen_ok env \<Longrightarrow> cleaned_up filename env t f 1 (fresh_world t f)"
  by (simp add: cleaned_up_def reaches_loop_def fresh_world_def settled_def)

lemma early_exit_returns:
  assumes "\<not> reaches_loop filename env"
  shows "\<exists>w'. playerWithControls fp filename env steps w = Some (1, w') \<and>
              player fp filename env steps w = Some (1, w')"
  using assms
  by (auto simp: reaches_loop_def playerWithControls_def player_def snd_session_def
      mp3_opening_def Let_def split: if_splits)

text \<open>
  Claim C1. Whenever \<^verbatim>\<open>playerWithControls\<close> or \<^verbatim>\<open>player\<close> returns, with whatever code
  and on whatever path, the terminal settings and the flags of standard input are the
  ones the session found, and every handle (the mpg123 library, the decoder handle, the
  file it opened, the libsndfile handle, the output stream) was either never created or
  released exactly once; the handles of a session that reached its loop are all
  released; a session that did not reach its loop returns 1 without having touched the
  terminal, and it always returns.
\<close>

theorem session_cleanup:
  "(playerWithControls fp filename env steps (fresh_world t f) = Some (rc, w') \<or>
    player fp filename env steps (fresh_world t f) = Some (rc, w')
      \<longrightarrow> cleaned_up filename env t f rc w') \<and>
   (\<not> reaches_loop filename env \<longrightarrow>
      (\<exists>w1. playerWithControls fp filename env steps (fresh_world t f) = Some (1, w1) \<and>
            player fp filename env steps (fresh_world t f) = Some (1, w1)))"
proof (intro conjI impI)
  assume run: "playerWithControls fp filename env steps (fresh_world t f) = Some (rc, w') \<or>
    player fp filename env steps (fresh_world t f) = Some (rc, w')"
  show "cleaned_up filename env t f rc w'"
  proof (cases "fopen_ok env")
    case False
    with run have "rc = 1" "w' = fresh_world t f"
      by (auto simp: playerWithControls_def player_def)
    with no_fopen_cleanup[OF False] show ?thesis by simp
  next
    case fo: True
    show ?thesis
    proof (cases "isMP3File filename")
      case True
      from run show ?thesis
      proof
        assume "playerWithControls fp filename env steps (fresh_world t f) = Some (rc, w')"
        from playerWithControls_mp3_cleanup[OF this fo True] show ?thesis .
      next
        assume "player fp filename env steps (fresh_world t f) = Some (rc, w')"
        from player_mp3_cleanup[OF this fo True] show ?thesis .
      qed
    next
      case False
      with run fo have "snd_session fp env steps (fresh_world t f) = Some (rc, w')"
        by (auto simp: playerWithControls_def player_def)
      from snd_session_cleanup[OF this fo False] show ?thesis .
    qed
  qed
next
  assume "\<not> reaches_loop filename env"
  from early_exit_returns[OF this]
  show "\<exists>w1. playerWithControls fp filename env steps (fresh_world t f) = Some (1, w1) \<and>
            player fp filename env steps (fresh_world t f) = Some (1, w1)" .
qed

text \<open>A session that plays one chunk to the end, and one whose file cannot be opened.\<close>

theorem session_cleanup_witness:
  "(\<exists>w'. playerWithControls fp_floor ''a.mp3'' ok_env [chunk, chunk\<lparr>read_result := MPG123_DONE\<rparr>]
            (fresh_world tty0 flags0) = Some (0, w') \<and>
         tty w' = tty0 \<and> stdin_flags w' = flags0 \<and> mh w' = Released \<and> pa_stream w' = Released) \<and>
   (\<exists>w1. playerWithControls fp_floor ''a.mp3'' (ok_env\<lparr>fopen_ok := False\<rparr>) []
            (fresh_world tty0 flags0) = Some (1, w1))"
proof -
  have "\<exists>w'. playerWithControls fp_floor ''a.mp3'' ok_env [chunk, chunk\<lparr>read_result := MPG123_DONE\<rparr>]
            (fresh_world tty0 flags0) = Some (0, w')"
    by (simp add: chunk_def playerWithControls_def isMP3File_def mp3Pattern_def ok_env_def
        mp3_opening_def handle_defs fresh_world_def mp3_body_def poll_keys_def mp3_decode_def
        progress_def fp_floor_def emit_def Let_def lstate_init_def drain_if_finished_def
        exit_code_def)
  then obtain w' where run:
    "playerWithControls fp_floor ''a.mp3'' ok_env [chunk, chunk\<lparr>read_result := MPG123_DONE\<rparr>]
            (fresh_world tty0 flags0) = Some (0, w')"
    by blast
  have rl: "reaches_loop ''a.mp3'' ok_env"
    by (simp add: reaches_loop_def ok_env_def isMP3File_def mp3Pattern_def)
  from session_cleanup[THEN conjunct1, THEN mp, OF disjI1, OF run] rl
  have "tty w' = tty0 \<and> stdin_flags w' = flags0 \<and> mh w' = Released \<and> pa_stream w' = Released"
    by (simp add: cleaned_up_def isMP3File_def mp3Pattern_def)
  with run have a: "\<exists>w'. playerWithControls fp_floor ''a.mp3'' ok_env
        [chunk, chunk\<lparr>read_result := MPG123_DONE\<rparr>] (fresh_world tty0 flags0) = Some (0, w') \<and>
      tty w' = tty0 \<and> stdin_flags w' = flags0 \<and> mh w' = Released \<and> pa_stream w' = Released"
    by blast
  have "\<not> reaches_loop ''a.mp3'' (ok_env\<lparr>fopen_ok := False\<rparr>)"
    by (simp add: reaches_loop_def)
  from session_cleanup[THEN conjunct2, THEN mp, OF this]
  have "\<exists>w1. playerWithControls fp_floor ''a.mp3'' (ok_env\<lparr>fopen_ok := False\<rparr>) []
            (fresh_world tty0 flags0) = Some (1, w1)"
    by blast
  with a show ?thesis by blast
qed

subsection \<open>The stop key and the codes\<close>

lemma while_not_stopped_stopped:
  "should_stop st \<Longrightarrow> while_not_stopped body es st w = Some (st, w)"
  by (cases es) simp_all

lemma progress_flags:
  "should_stop (fst (progress fp pos tot st w)) = should_stop st"
  "playback_error (fst (progress fp pos tot st w)) = playback_error st"
  "is_paused (fst (progress fp pos tot st w)) = is_paused st"
  by (simp_all add: progress_def Let_def)

lemma poll_keys_stop_mp3:
  assumes "stop_key e"
  shows "\<exists>w1. poll_keys (mp3_key r t) e st w = (st\<lparr>should_stop := True\<rparr>, w1)"
  using assms
  by (auto simp: stop_key_def poll_keys_def mp3_key_def getch_def Let_def)

lemma poll_keys_stop_snd:
  assumes "stop_key e"
  shows "\<exists>w1. poll_keys (snd_key r ret) e st w = (st\<lparr>should_stop := True\<rparr>, w1)"
  using assms
  by (auto simp: stop_key_def poll_keys_def snd_key_def getch_def Let_def)

lemma mp3_decode_stopping:
  assumes "should_stop st" "\<not> playback_error st"
  shows "\<exists>fl st' w'. mp3_decode fp t e st w = (fl, st', w') \<and> should_stop st' \<and>
           (playback_error st' \<longleftrightarrow> mp3_fails e) \<and> (mp3_fails e \<longrightarrow> fl = Break)"
  using assms
  by (cases "read_result e")
     (auto simp: mp3_decode_def mp3_fails_def Let_def progress_def split: prod.splits)

lemma mp3_stop_key:
  assumes "playing st" "stop_key e"
  shows "\<exists>st' w'. while_not_stopped (mp3_body fp r t) (e # es) st w = Some (st', w') \<and>
           should_stop st' \<and> drain_if_finished st' w' = w' \<and>
           exit_code st' = (if mp3_fails e then 1 else 2)"
proof -
  from poll_keys_stop_mp3[OF assms(2)] obtain w1 where
    pk: "poll_keys (mp3_key r t) e st w = (st\<lparr>should_stop := True\<rparr>, w1)" by blast
  from assms(1) have ss: "should_stop (st\<lparr>should_stop := True\<rparr>)"
    "\<not> playback_error (st\<lparr>should_stop := True\<rparr>)" "\<not> is_paused (st\<lparr>should_stop := True\<rparr>)"
    by (simp_all add: playing_def)
  from mp3_decode_stopping[OF ss(1,2), of fp t e w1] obtain fl st' w' where
    d: "mp3_decode fp t e (st\<lparr>should_stop := True\<rparr>) w1 = (fl, st', w')" "should_stop st'"
      "playback_error st' \<longleftrightarrow> mp3_fails e"
    by blast
  from pk ss(3) d(1) have b: "mp3_body fp r t e st w = (fl, st', w')"
    by (simp add: mp3_body_def)
  from assms(1) have ns: "\<not> should_stop st" by (simp add: playing_def)
  have "while_not_stopped (mp3_body fp r t) (e # es) st w = Some (st', w')"
    using ns b d(2) by (cases fl) (simp_all add: while_not_stopped_stopped)
  with d(2,3) show ?thesis
    by (auto simp: drain_if_finished_def exit_code_def)
qed

lemma snd_stop_key:
  assumes "playing st" "stop_key e"
  shows "\<exists>st' w'. while_not_stopped (snd_body fp r t) (e # es) st w = Some (st', w') \<and>
           should_stop st' \<and> drain_if_finished st' w' = w' \<and>
           exit_code st' = (if snd_fails e then 1 else 2)"
proof -
  from poll_keys_stop_snd[OF assms(2)] obtain w1 where
    pk: "poll_keys (snd_key r (seek_result e)) e st w = (st\<lparr>should_stop := True\<rparr>, w1)" by blast
  from assms(1) have ss: "\<not> playback_error st" "\<not> is_paused st" "\<not> should_stop st"
    by (simp_all add: playing_def)
  obtain fl st' w' where b: "snd_body fp r t e st w = (fl, st', w')"
    by (cases "snd_body fp r t e st w")
  with pk ss have st': "should_stop st'" "playback_error st' \<longleftrightarrow> snd_fails e"
    by (auto simp: snd_body_def snd_fails_def Let_def progress_def split: if_splits prod.splits)
  have "while_not_stopped (snd_body fp r t) (e # es) st w = Some (st', w')"
    using ss(3) b st'(1) by (cases fl) (simp_all add: while_not_stopped_stopped)
  with st' show ?thesis
    by (auto simp: drain_if_finished_def exit_code_def)
qed

lemma exit_code_range: "exit_code st \<in> {0, 1, 2}"
  by (simp add: exit_code_def)

lemma playerWithControls_codes:
  "playerWithControls fp filename env steps w = Some (rc, w') \<Longrightarrow> rc \<in> {0, 1, 2}"
  by (auto simp: playerWithControls_def snd_session_def Let_def exit_code_def
      split: if_splits sum.splits option.splits)

lemma player_codes:
  "player fp filename env steps w = Some (rc, w') \<Longrightarrow> rc \<in> {0, 1, 2}"
  by (auto simp: player_def snd_session_def Let_def exit_code_def
      split: if_splits sum.splits option.splits)

text \<open>
  Claim C4 at a session in which the stop key is read while the session is playing and
  the decoder reports an error in the same iteration. The loop ends with both flags set:
  the session prints the line for a stop by the user and returns 1, the code for an
  error, not 2. A driver that gets this code does not halt: it prompts, and on a yes it
  goes on to the next track.
\<close>

theorem stop_key_with_decode_error:
  "playing lstate_init \<and>
   stop_key (chunk\<lparr>key := Some CHR ''s'', read_result := MPG123_ERR\<rparr>) \<and>
   (\<exists>st' w'.
      while_not_stopped (mp3_body fp_floor 44100 4410000)
        [chunk\<lparr>key := Some CHR ''s'', read_result := MPG123_ERR\<rparr>] lstate_init
        (fresh_world tty0 flags0) = Some (st', w') \<and>
      closing_message st' = Playback_stopped_by_user \<and> exit_code st' = 1) \<and>
   map_option fst
     (playerWithControls fp_floor ''a.mp3'' ok_env
        [chunk\<lparr>key := Some CHR ''s'', read_result := MPG123_ERR\<rparr>] (fresh_world tty0 flags0)) =
     Some 1 \<and>
   map_option (map_sum id fst)
     (playWithControls
        (\<lambda>k path. map_option fst
           (playerWithControls fp_floor path ok_env
              [chunk\<lparr>key := Some CHR ''s'', read_result := MPG123_ERR\<rparr>] (fresh_world tty0 flags0)))
        (\<lambda>k. CHR ''y'') ab_playlist) =
     Some (Inr [Play ''1.mp3'', Prompt, Sleep_seconds 2, Play ''2.mp3'', Prompt, Complete])"
  by (simp add: playing_def lstate_init_def stop_key_def chunk_def playerWithControls_def
      isMP3File_def mp3Pattern_def ok_env_def mp3_opening_def handle_defs fresh_world_def
      mp3_body_def poll_keys_def getch_def mp3_key_def mp3_decode_def emit_def Let_def
      drain_if_finished_def exit_code_def closing_message_def
      playWithControls_def ab_playlist_def seq_loop.simps deref_def play_track_def finish.simps
      is_yes_def)

subsection \<open>Seeking\<close>

lemma getch_eq: "getch c w = (c, emit (Getch c) w)"
  by (simp add: getch_def emit_def Let_def)

lemma emit_trace: "emit ev w = w\<lparr>trace := trace w @ [ev]\<rparr>"
  by (simp add: emit_def)

lemma mp3_seek_forward:
  assumes "key e = Some CHR ''k''"
  shows "poll_keys (mp3_key r t) e st w =
     (st, w\<lparr>trace := trace w @
        (if 0 < t
         then [Kbhit, Getch CHR ''k'',
               Mpg123_seek_frame (min (t - 1) (current_frame_pos st + 10 * r)) SEEK_SET]
         else [Kbhit, Getch CHR ''k''])\<rparr>)"
  using assms by (simp add: poll_keys_def getch_eq mp3_key_def emit_trace Let_def min_def)

lemma snd_seek_forward:
  assumes "key e = Some CHR ''k''"
  shows "poll_keys (snd_key r (seek_result e)) e st w =
     (if seek_result e < 0
      then (st\<lparr>current_frame_pos := 0, frames_played := 0\<rparr>,
            w\<lparr>trace := trace w @ [Kbhit, Getch CHR ''k'', Sf_seek (10 * r) SEEK_CUR, Sf_seek 0 SEEK_SET]\<rparr>)
      else (st\<lparr>current_frame_pos := seek_result e, frames_played := seek_result e\<rparr>,
            w\<lparr>trace := trace w @ [Kbhit, Getch CHR ''k'', Sf_seek (10 * r) SEEK_CUR]\<rparr>))"
  using assms by (simp add: poll_keys_def getch_eq snd_key_def emit_trace Let_def)

lemmas session_eval =
  chunk_def playerWithControls_def snd_session_def isMP3File_def mp3Pattern_def ok_env_def
  mp3_opening_def handle_defs fresh_world_def mp3_body_def snd_body_def poll_keys_def
  getch_eq mp3_key_def snd_key_def mp3_decode_def progress_def fp_floor_def emit_def Let_def
  lstate_init_def drain_if_finished_def exit_code_def

text \<open>
  Claim C2 at two sessions on a sample-coded file. With an unknown total length (0 frames)
  the forward key still sends a relative seek of ten seconds to the backend; with a known
  total length of 100000 frames the request is the same unclamped relative seek, and when
  the backend refuses it the session seeks to position 0.
\<close>

theorem seek_forward_sample_coded:
  "map_option (\<lambda>(rc, w). trace w)
     (playerWithControls fp_floor ''a.wav'' (ok_env\<lparr>total_length := 0\<rparr>)
        [chunk\<lparr>key := Some CHR ''k'', seek_result := 441000, frames_read := 0\<rparr>]
        (fresh_world tty0 flags0)) =
     Some [Kbhit, Getch CHR ''k'', Sf_seek 441000 SEEK_CUR, Sf_readf_short, Pa_simple_drain] \<and>
   map_option (\<lambda>(rc, w). trace w)
     (playerWithControls fp_floor ''a.wav'' (ok_env\<lparr>total_length := 100000\<rparr>)
        [chunk\<lparr>key := Some CHR ''k'', seek_result := - 1, frames_read := 0\<rparr>]
        (fresh_world tty0 flags0)) =
     Some [Kbhit, Getch CHR ''k'', Sf_seek 441000 SEEK_CUR, Sf_seek 0 SEEK_SET, Sf_readf_short,
           Pa_simple_drain]"
  by (simp add: session_eval)

lemma mp3_seek_back:
  assumes "key e = Some CHR ''j''"
  shows "poll_keys (mp3_key r t) e st w =
     (st, w\<lparr>trace := trace w @
        (if 0 < current_frame_pos st
         then [Kbhit, Getch CHR ''j'',
               Mpg123_seek_frame (max 0 (current_frame_pos st - 10 * r)) SEEK_SET]
         else [Kbhit, Getch CHR ''j''])\<rparr>)"
  using assms by (simp add: poll_keys_def getch_eq mp3_key_def emit_trace Let_def max_def)

lemma snd_seek_back:
  assumes "key e = Some CHR ''j''"
  shows "poll_keys (snd_key r (seek_result e)) e st w =
     (if seek_result e < 0
      then (st\<lparr>current_frame_pos := 0, frames_played := 0\<rparr>,
            w\<lparr>trace := trace w @
              [Kbhit, Getch CHR ''j'', Sf_seek (- (10 * r)) SEEK_CUR, Sf_seek 0 SEEK_SET]\<rparr>)
      else (st\<lparr>current_frame_pos := seek_result e, frames_played := seek_result e\<rparr>,
            w\<lparr>trace := trace w @ [Kbhit, Getch CHR ''j'', Sf_seek (- (10 * r)) SEEK_CUR]\<rparr>))"
  using assms by (simp add: poll_keys_def getch_eq snd_key_def emit_trace Let_def)

text \<open>
  Claim C3 at three sessions. At position 0 a sample-coded session asks the backend for
  a position ten seconds before the start and seeks to 0 only after the backend has
  refused. A frame-coded session at frame 1000000 issues its one clamped request and no
  seek to position 0 follows, whatever the backend answers. Two back keys during a pause
  of a frame-coded session both request frame 559000: the position the handler steps
  back from is the one read after the last decoded chunk, not the one the first seek
  reached.
\<close>

theorem seek_back_sessions:
  "map_option (\<lambda>(rc, w). trace w)
     (playerWithControls fp_floor ''a.wav'' ok_env
        [chunk\<lparr>key := Some CHR ''j'', seek_result := - 1, frames_read := 0\<rparr>]
        (fresh_world tty0 flags0)) =
     Some [Kbhit, Getch CHR ''j'', Sf_seek (- 441000) SEEK_CUR, Sf_seek 0 SEEK_SET, Sf_readf_short,
           Pa_simple_drain] \<and>
   map_option (\<lambda>(rc, w). trace w)
     (playerWithControls fp_floor ''a.mp3'' ok_env
        [chunk\<lparr>position := 1000000\<rparr>,
         chunk\<lparr>key := Some CHR ''j'', seek_result := - 1, read_result := MPG123_DONE\<rparr>]
        (fresh_world tty0 flags0)) =
     Some [Kbhit, Mpg123_read, Pa_simple_write, Mpg123_framepos, Progress_bar 5 22,
           Kbhit, Getch CHR ''j'', Mpg123_seek_frame 559000 SEEK_SET, Mpg123_read,
           Pa_simple_drain] \<and>
   map_option (\<lambda>(rc, w). trace w)
     (playerWithControls fp_floor ''a.mp3'' ok_env
        [chunk\<lparr>position := 1000000\<rparr>, chunk\<lparr>key := Some CHR '' ''\<rparr>,
         chunk\<lparr>key := Some CHR ''j''\<rparr>, chunk\<lparr>key := Some CHR ''j''\<rparr>,
         chunk\<lparr>key := Some CHR '' '', read_result := MPG123_DONE\<rparr>]
        (fresh_world tty0 flags0)) =
     Some [Kbhit, Mpg123_read, Pa_simple_write, Mpg123_framepos, Progress_bar 5 22,
           Kbhit, Getch CHR '' '', Usleep 100000,
           Kbhit, Getch CHR ''j'', Mpg123_seek_frame 559000 SEEK_SET, Usleep 100000,
           Kbhit, Getch CHR ''j'', Mpg123_seek_frame 559000 SEEK_SET, Usleep 100000,
           Kbhit, Getch CHR '' '', Mpg123_read, Pa_simple_drain]"
  by (simp add: session_eval)

subsection \<open>Pausing\<close>

lemma mp3_key_trace:
  "\<exists>evs. trace (snd (mp3_key r t k st w)) = trace w @ evs \<and> (\<forall>ev\<in>set evs. \<not> decodes_or_writes ev)"
  by (simp add: mp3_key_def emit_trace Let_def decodes_or_writes_def)

lemma snd_key_trace:
  "\<exists>evs. trace (snd (snd_key r ret k st w)) = trace w @ evs \<and> (\<forall>ev\<in>set evs. \<not> decodes_or_writes ev)"
  by (simp add: snd_key_def emit_trace Let_def decodes_or_writes_def)

lemma poll_keys_trace:
  assumes "\<And>k st w. \<exists>evs. trace (snd (dispatch k st w)) = trace w @ evs \<and>
              (\<forall>ev\<in>set evs. \<not> decodes_or_writes ev)"
  shows "\<exists>evs. trace (snd (poll_keys dispatch e st w)) = trace w @ Kbhit # evs \<and>
              (\<forall>ev\<in>set evs. \<not> decodes_or_writes ev)"
proof (cases "key e")
  case None
  then show ?thesis by (simp add: poll_keys_def emit_trace Let_def)
next
  case (Some c)
  from assms[of c st "emit (Getch c) (emit Kbhit w)"] obtain evs where
    "trace (snd (dispatch c st (emit (Getch c) (emit Kbhit w)))) =
       trace (emit (Getch c) (emit Kbhit w)) @ evs" "\<forall>ev\<in>set evs. \<not> decodes_or_writes ev"
    by blast
  with Some show ?thesis
    by (intro exI[of _ "Getch c # evs"])
       (simp add: poll_keys_def getch_eq emit_trace Let_def decodes_or_writes_def)
qed

lemma mp3_decode_is_paused:
  "is_paused (fst (snd (mp3_decode fp t e st w))) = is_paused st"
  by (cases "read_result e") (simp_all add: mp3_decode_def Let_def progress_def split: prod.splits)

lemma mp3_paused_iteration:
  assumes "is_paused (fst (snd (mp3_body fp r t e st w)))"
  shows "fst (mp3_body fp r t e st w) = Continue \<and>
     (\<exists>evs. trace (snd (snd (mp3_body fp r t e st w))) = trace w @ Kbhit # evs @ [Usleep 100000] \<and>
            (\<forall>ev\<in>set evs. \<not> decodes_or_writes ev))"
proof -
  obtain st1 w1 where pk: "poll_keys (mp3_key r t) e st w = (st1, w1)"
    by (cases "poll_keys (mp3_key r t) e st w")
  from poll_keys_trace[of "mp3_key r t" e st w, OF mp3_key_trace] pk obtain evs where
    evs: "trace w1 = trace w @ Kbhit # evs" "\<forall>ev\<in>set evs. \<not> decodes_or_writes ev"
    by auto
  from assms pk have "is_paused st1"
    by (simp add: mp3_body_def mp3_decode_is_paused split: if_splits)
  with pk evs show ?thesis
    by (simp add: mp3_body_def emit_trace)
qed

lemma snd_paused_iteration:
  assumes "is_paused (fst (snd (snd_body fp r t e st w)))"
  shows "fst (snd_body fp r t e st w) = Continue \<and>
     (\<exists>evs. trace (snd (snd (snd_body fp r t e st w))) = trace w @ Kbhit # evs @ [Usleep 100000] \<and>
            (\<forall>ev\<in>set evs. \<not> decodes_or_writes ev))"
proof -
  obtain st1 w1 where pk: "poll_keys (snd_key r (seek_result e)) e st w = (st1, w1)"
    by (cases "poll_keys (snd_key r (seek_result e)) e st w")
  from poll_keys_trace[of "snd_key r (seek_result e)" e st w, OF snd_key_trace] pk obtain evs where
    evs: "trace w1 = trace w @ Kbhit # evs" "\<forall>ev\<in>set evs. \<not> decodes_or_writes ev"
    by auto
  have "is_paused (fst (snd (snd_body fp r t e st w))) = is_paused st1"
    using pk progress_flags(3)[of fp "frames_played st1 + frames_read e" t]
    by (simp add: snd_body_def Let_def split_beta)
  with assms have "is_paused st1" by simp
  with pk evs show ?thesis
    by (simp add: snd_body_def emit_trace)
qed

lemma quiet_key_mp3:
  "quiet e \<Longrightarrow> poll_keys (mp3_key r t) e st w =
     (st, w\<lparr>trace := trace w @ Kbhit # (case key e of None \<Rightarrow> [] | Some c \<Rightarrow> [Getch c])\<rparr>)"
proof (cases "key e")
  case None
  then show ?thesis by (simp add: poll_keys_def emit_trace Let_def)
next
  case (Some c)
  assume "quiet e"
  with Some have ne: "c \<noteq> CHR '' ''" "c \<noteq> CHR ''s''" "c \<noteq> CHR ''S''" "c \<noteq> CHR ''j''"
    "c \<noteq> CHR ''k''"
    by (simp_all add: quiet_def)
  have "mp3_key r t c st (emit (Getch c) (emit Kbhit w)) = (st, emit (Getch c) (emit Kbhit w))"
    using ne by (simp add: mp3_key_def)
  with Some show ?thesis
    by (simp add: poll_keys_def getch_eq emit_trace Let_def)
qed

lemma quiet_key_snd:
  "quiet e \<Longrightarrow> poll_keys (snd_key r ret) e st w =
     (st, w\<lparr>trace := trace w @ Kbhit # (case key e of None \<Rightarrow> [] | Some c \<Rightarrow> [Getch c])\<rparr>)"
proof (cases "key e")
  case None
  then show ?thesis by (simp add: poll_keys_def emit_trace Let_def)
next
  case (Some c)
  assume "quiet e"
  with Some have ne: "c \<noteq> CHR '' ''" "c \<noteq> CHR ''s''" "c \<noteq> CHR ''S''" "c \<noteq> CHR ''j''"
    "c \<noteq> CHR ''k''"
    by (simp_all add: quiet_def)
  have "snd_key r ret c st (emit (Getch c) (emit Kbhit w)) = (st, emit (Getch c) (emit Kbhit w))"
    using ne by (simp add: snd_key_def)
  with Some show ?thesis
    by (simp add: poll_keys_def getch_eq emit_trace Let_def)
qed

lemma space_key_mp3:
  "key e = Some CHR '' '' \<Longrightarrow> poll_keys (mp3_key r t) e st w =
     (st\<lparr>is_paused := \<not> is_paused st\<rparr>, w\<lparr>trace := trace w @ [Kbhit, Getch CHR '' '']\<rparr>)"
  by (simp add: poll_keys_def getch_eq mp3_key_def emit_trace Let_def)

lemma space_key_snd:
  "key e = Some CHR '' '' \<Longrightarrow> poll_keys (snd_key r ret) e st w =
     (st\<lparr>is_paused := \<not> is_paused st\<rparr>, w\<lparr>trace := trace w @ [Kbhit, Getch CHR '' '']\<rparr>)"
  by (simp add: poll_keys_def getch_eq snd_key_def emit_trace Let_def)

lemma idle_run:
  assumes step: "\<And>e w. quiet e \<Longrightarrow> body e st w = (Continue, st, w\<lparr>trace := trace w @ idle_events e\<rparr>)"
    and ns: "\<not> should_stop st"
  shows "\<forall>e\<in>set idles. quiet e \<Longrightarrow>
     while_not_stopped body (idles @ rest) st w =
     while_not_stopped body rest st (w\<lparr>trace := trace w @ concat (map idle_events idles)\<rparr>)"
proof (induction idles arbitrary: w)
  case Nil
  then show ?case by simp
next
  case (Cons e es)
  from Cons.prems have q: "quiet e" "\<forall>e\<in>set es. quiet e" by auto
  from Cons.IH[OF q(2), of "w\<lparr>trace := trace w @ idle_events e\<rparr>"] step[OF q(1), of w] ns
  show ?case by simp
qed

lemma mp3_pause_then_idle:
  assumes "playing st" "key p = Some CHR '' ''" "\<forall>e\<in>set idles. quiet e"
  shows "while_not_stopped (mp3_body fp r t) (p # idles @ rest) st w =
     while_not_stopped (mp3_body fp r t) rest (st\<lparr>is_paused := True\<rparr>)
       (w\<lparr>trace := trace w @ [Kbhit, Getch CHR '' '', Usleep 100000] @ concat (map idle_events idles)\<rparr>)"
proof -
  from assms(1) have st: "\<not> should_stop st" "\<not> is_paused st" by (simp_all add: playing_def)
  have first: "mp3_body fp r t p st w =
      (Continue, st\<lparr>is_paused := True\<rparr>, w\<lparr>trace := trace w @ [Kbhit, Getch CHR '' '', Usleep 100000]\<rparr>)"
    using st by (simp add: mp3_body_def space_key_mp3[OF assms(2)] emit_trace)
  have step: "\<And>e w. quiet e \<Longrightarrow> mp3_body fp r t e (st\<lparr>is_paused := True\<rparr>) w =
      (Continue, st\<lparr>is_paused := True\<rparr>, w\<lparr>trace := trace w @ idle_events e\<rparr>)"
    by (simp add: mp3_body_def quiet_key_mp3 emit_trace idle_events_def)
  from st have ns: "\<not> should_stop (st\<lparr>is_paused := True\<rparr>)" by simp
  from idle_run[of "mp3_body fp r t" "st\<lparr>is_paused := True\<rparr>", OF step ns assms(3)] first st(1)
  show ?thesis by simp
qed

lemma snd_pause_then_idle:
  assumes "playing st" "key p = Some CHR '' ''" "\<forall>e\<in>set idles. quiet e"
  shows "while_not_stopped (snd_body fp r t) (p # idles @ rest) st w =
     while_not_stopped (snd_body fp r t) rest (st\<lparr>is_paused := True\<rparr>)
       (w\<lparr>trace := trace w @ [Kbhit, Getch CHR '' '', Usleep 100000] @ concat (map idle_events idles)\<rparr>)"
proof -
  from assms(1) have st: "\<not> should_stop st" "\<not> is_paused st" by (simp_all add: playing_def)
  have first: "snd_body fp r t p st w =
      (Continue, st\<lparr>is_paused := True\<rparr>, w\<lparr>trace := trace w @ [Kbhit, Getch CHR '' '', Usleep 100000]\<rparr>)"
    using st by (simp add: snd_body_def space_key_snd[OF assms(2)] emit_trace)
  have step: "\<And>e w. quiet e \<Longrightarrow> snd_body fp r t e (st\<lparr>is_paused := True\<rparr>) w =
      (Continue, st\<lparr>is_paused := True\<rparr>, w\<lparr>trace := trace w @ idle_events e\<rparr>)"
    by (simp add: snd_body_def quiet_key_snd emit_trace idle_events_def)
  from st have ns: "\<not> should_stop (st\<lparr>is_paused := True\<rparr>)" by simp
  from idle_run[of "snd_body fp r t" "st\<lparr>is_paused := True\<rparr>", OF step ns assms(3)] first st(1)
  show ?thesis by simp
qed

lemmas loop_eval = chunk_def mp3_body_def snd_body_def poll_keys_def getch_eq mp3_key_def
  snd_key_def mp3_decode_def progress_def fp_floor_def emit_def Let_def lstate_init_def
  fresh_world_def

lemma snd_body_decode:
  "snd_body fp r t e st w =
     (let (st1, w1) = poll_keys (snd_key r (seek_result e)) e st w in
      if is_paused st1 then (Continue, st1, emit (Usleep 100000) w1)
      else snd_decode fp t e st1 w1)"
  unfolding snd_body_def snd_decode_def by (rule refl)

lemma mp3_key_appends:
  "\<exists>st' evs. \<forall>w. mp3_key r t k st w = (st', w\<lparr>trace := trace w @ evs\<rparr>)"
proof -
  fix w0 :: world
  have "\<forall>w. mp3_key r t k st w =
     (fst (mp3_key r t k st w0), w\<lparr>trace := trace w @ added w0 (snd (mp3_key r t k st w0))\<rparr>)"
    by (simp add: mp3_key_def emit_trace Let_def added_def)
  then show ?thesis by blast
qed

lemma snd_key_appends:
  "\<exists>st' evs. \<forall>w. snd_key r ret k st w = (st', w\<lparr>trace := trace w @ evs\<rparr>)"
proof -
  fix w0 :: world
  have "\<forall>w. snd_key r ret k st w =
     (fst (snd_key r ret k st w0), w\<lparr>trace := trace w @ added w0 (snd (snd_key r ret k st w0))\<rparr>)"
    by (simp add: snd_key_def emit_trace Let_def added_def)
  then show ?thesis by blast
qed

lemma poll_keys_appends:
  assumes "\<And>k. \<exists>st' evs. \<forall>w. dispatch k st w = (st', w\<lparr>trace := trace w @ evs\<rparr>)"
  shows "\<exists>st' evs. \<forall>w. poll_keys dispatch e st w = (st', w\<lparr>trace := trace w @ evs\<rparr>)"
proof (cases "key e")
  case None
  then show ?thesis
    by (intro exI[of _ st] exI[of _ "[Kbhit]"]) (simp add: poll_keys_def emit_trace)
next
  case (Some c)
  from assms[of c] obtain st' evs where
    d: "\<And>w. dispatch c st w = (st', w\<lparr>trace := trace w @ evs\<rparr>)" by blast
  from Some show ?thesis
    by (intro exI[of _ st'] exI[of _ "[Kbhit, Getch c] @ evs"])
       (simp add: poll_keys_def getch_eq emit_trace d)
qed

lemma progress_appends:
  "\<exists>st' evs. \<forall>w. progress fp pos tot st w = (st', w\<lparr>trace := trace w @ evs\<rparr>)"
proof -
  fix w0 :: world
  have "\<forall>w. progress fp pos tot st w =
     (fst (progress fp pos tot st w0),
      w\<lparr>trace := trace w @ added w0 (snd (progress fp pos tot st w0))\<rparr>)"
    by (simp add: progress_def emit_trace Let_def added_def)
  then show ?thesis by blast
qed

lemma mp3_decode_appends:
  "\<exists>fl st' evs. \<forall>w. mp3_decode fp t e st w = (fl, st', w\<lparr>trace := trace w @ evs\<rparr>)"
proof -
  from progress_appends[of fp "position e" t "st\<lparr>current_frame_pos := position e\<rparr>"]
  obtain st2 evs where p: "\<And>w. progress fp (position e) t (st\<lparr>current_frame_pos := position e\<rparr>) w =
      (st2, w\<lparr>trace := trace w @ evs\<rparr>)" by blast
  show ?thesis
  proof (cases "read_result e")
    case MPG123_DONE
    then show ?thesis
      by (intro exI[of _ Break] exI[of _ st] exI[of _ "[Mpg123_read]"])
         (simp add: mp3_decode_def emit_trace)
  next
    case MPG123_NEW_FORMAT
    then show ?thesis
      by (intro exI[of _ Continue] exI[of _ st] exI[of _ "[Mpg123_read, Mpg123_getformat]"])
         (simp add: mp3_decode_def emit_trace)
  next
    case MPG123_ERR
    then show ?thesis
      by (intro exI[of _ Break] exI[of _ "st\<lparr>playback_error := True\<rparr>"] exI[of _ "[Mpg123_read]"])
         (simp add: mp3_decode_def emit_trace)
  next
    case MPG123_OK
    show ?thesis
    proof (cases "bytes_decoded e = 0")
      case True
      with MPG123_OK show ?thesis
        by (intro exI[of _ Continue] exI[of _ st] exI[of _ "[Mpg123_read]"])
           (simp add: mp3_decode_def emit_trace)
    next
      case False
      show ?thesis
      proof (cases "write_ok e")
        case True
        with MPG123_OK False show ?thesis
          by (intro exI[of _ Continue] exI[of _ st2]
                exI[of _ "[Mpg123_read, Pa_simple_write, Mpg123_framepos] @ evs"])
             (simp add: mp3_decode_def emit_trace p)
      next
        case wf: False
        with MPG123_OK False show ?thesis
          by (intro exI[of _ Break] exI[of _ "st\<lparr>playback_error := True\<rparr>"]
                exI[of _ "[Mpg123_read, Pa_simple_write]"])
             (simp add: mp3_decode_def emit_trace)
      qed
    qed
  qed
qed

lemma snd_decode_appends:
  "\<exists>fl st' evs. \<forall>w. snd_decode fp t e st w = (fl, st', w\<lparr>trace := trace w @ evs\<rparr>)"
proof -
  let ?st3 = "st\<lparr>frames_played := frames_played st + frames_read e,
                  current_frame_pos := position e\<rparr>"
  from progress_appends[of fp "frames_played st + frames_read e" t ?st3]
  obtain st4 evs where p: "\<And>w. progress fp (frames_played st + frames_read e) t ?st3 w =
      (st4, w\<lparr>trace := trace w @ evs\<rparr>)" by blast
  show ?thesis
  proof (cases "frames_read e \<le> 0")
    case True
    then show ?thesis
      by (intro exI[of _ Break] exI[of _ st] exI[of _ "[Sf_readf_short]"])
         (simp add: snd_decode_def emit_trace)
  next
    case False
    show ?thesis
    proof (cases "write_ok e")
      case True
      with False show ?thesis
        by (intro exI[of _ Continue] exI[of _ st4]
              exI[of _ "[Sf_readf_short, Pa_simple_write, Sf_seek 0 SEEK_CUR] @ evs"])
           (simp add: snd_decode_def emit_trace p)
    next
      case wf: False
      with False show ?thesis
        by (intro exI[of _ Break] exI[of _ "st\<lparr>playback_error := True\<rparr>"]
              exI[of _ "[Sf_readf_short, Pa_simple_write]"])
           (simp add: snd_decode_def emit_trace)
    qed
  qed
qed

lemma body_appends:
  assumes b: "\<And>w. B w =
       (let (st1, w1) = poll_keys dispatch e st w in
        if is_paused st1 then (Continue, st1, emit (Usleep 100000) w1) else decode st1 w1)"
    and k: "\<And>k. \<exists>st' evs. \<forall>w. dispatch k st w = (st', w\<lparr>trace := trace w @ evs\<rparr>)"
    and d: "\<And>st1. \<exists>fl st' evs. \<forall>w. decode st1 w = (fl, st', w\<lparr>trace := trace w @ evs\<rparr>)"
  shows "\<exists>fl st' evs. \<forall>w. B w = (fl, st', w\<lparr>trace := trace w @ evs\<rparr>)"
proof -
  from poll_keys_appends[of dispatch st e, OF k] obtain st1 K where
    pk: "\<And>w. poll_keys dispatch e st w = (st1, w\<lparr>trace := trace w @ K\<rparr>)" by blast
  from d[of st1] obtain fl st' evs where
    dc: "\<And>w. decode st1 w = (fl, st', w\<lparr>trace := trace w @ evs\<rparr>)" by blast
  show ?thesis
  proof (cases "is_paused st1")
    case True
    then show ?thesis
      by (intro exI[of _ Continue] exI[of _ st1] exI[of _ "K @ [Usleep 100000]"])
         (simp add: b pk emit_trace)
  next
    case False
    then show ?thesis
      by (intro exI[of _ fl] exI[of _ st'] exI[of _ "K @ evs"]) (simp add: b pk dc)
  qed
qed

lemma mp3_body_appends:
  "\<exists>fl st' evs. \<forall>w. mp3_body fp r t e st w = (fl, st', w\<lparr>trace := trace w @ evs\<rparr>)"
  by (rule body_appends[where dispatch = "mp3_key r t" and decode = "mp3_decode fp t e"])
     (simp add: mp3_body_def, rule mp3_key_appends, rule mp3_decode_appends)

lemma snd_body_appends:
  "\<exists>fl st' evs. \<forall>w. snd_body fp r t e st w = (fl, st', w\<lparr>trace := trace w @ evs\<rparr>)"
  by (rule body_appends[where dispatch = "snd_key r (seek_result e)" and decode = "snd_decode fp t e"])
     (simp add: snd_body_decode, rule snd_key_appends, rule snd_decode_appends)

lemma while_not_stopped_appends:
  assumes obl: "\<And>e st. \<exists>fl st' evs. \<forall>w. B e st w = (fl, st', w\<lparr>trace := trace w @ evs\<rparr>)"
  shows "\<exists>r. \<forall>w. while_not_stopped B es st w =
           map_option (\<lambda>(st', evs). (st', w\<lparr>trace := trace w @ evs\<rparr>)) r"
proof (induction es arbitrary: st)
  case Nil
  show ?case
  proof (cases "should_stop st")
    case True
    then show ?thesis by (intro exI[of _ "Some (st, [])"]) simp
  next
    case False
    then show ?thesis by (intro exI[of _ None]) simp
  qed
next
  case (Cons e es)
  from obl[of e st] obtain fl st1 evs where
    b: "\<And>w. B e st w = (fl, st1, w\<lparr>trace := trace w @ evs\<rparr>)" by blast
  from Cons.IH[of st1] obtain r where
    r: "\<And>w. while_not_stopped B es st1 w =
           map_option (\<lambda>(st', evs). (st', w\<lparr>trace := trace w @ evs\<rparr>)) r" by blast
  show ?case
  proof (cases "should_stop st")
    case True
    then show ?thesis by (intro exI[of _ "Some (st, [])"]) simp
  next
    case ns: False
    show ?thesis
    proof (cases fl)
      case Break
      with ns show ?thesis by (intro exI[of _ "Some (st1, evs)"]) (simp add: b)
    next
      case Continue
      with ns show ?thesis
        by (intro exI[of _ "map_option (\<lambda>(st', evs'). (st', evs @ evs')) r"])
           (cases r; simp add: b r split_beta)
    qed
  qed
qed

lemma effects_append [simp]: "effects (xs @ ys) = effects xs @ effects ys"
  by (simp add: effects_def)

lemma effects_idle_events: "effects (concat (map idle_events idles)) = []"
  by (induction idles)
     (auto simp: effects_def idle_events_def keyboard_or_sleep_def split: option.splits)

lemma effects_pause:
  "effects ([Kbhit, Getch CHR '' '', Usleep 100000] @ concat (map idle_events idles)) = []"
  using effects_idle_events[of idles] by (simp add: effects_def keyboard_or_sleep_def)

lemma mp3_decode_key: "mp3_decode fp t (e\<lparr>key := k\<rparr>) st w = mp3_decode fp t e st w"
  by (simp add: mp3_decode_def Let_def split: mpg123_result.split)

lemma snd_decode_key: "snd_decode fp t (e\<lparr>key := k\<rparr>) st w = snd_decode fp t e st w"
  by (simp add: snd_decode_def Let_def)

lemma unpause: "\<not> is_paused st \<Longrightarrow> st\<lparr>is_paused := False\<rparr> = st"
  by (cases st) simp

lemma mp3_resume:
  assumes "playing st" "key q = Some CHR '' ''"
  shows "\<exists>fl st1 X.
     (\<forall>w. mp3_body fp r t q (st\<lparr>is_paused := True\<rparr>) w =
           (fl, st1, w\<lparr>trace := trace w @ [Kbhit, Getch CHR '' ''] @ X\<rparr>)) \<and>
     (\<forall>w. mp3_body fp r t (q\<lparr>key := None\<rparr>) st w = (fl, st1, w\<lparr>trace := trace w @ Kbhit # X\<rparr>))"
proof -
  from assms(1) have np: "\<not> is_paused st" by (simp add: playing_def)
  from mp3_decode_appends[of fp t q st] obtain fl st1 X where
    d: "\<And>w. mp3_decode fp t q st w = (fl, st1, w\<lparr>trace := trace w @ X\<rparr>)" by blast
  have "\<forall>w. mp3_body fp r t q (st\<lparr>is_paused := True\<rparr>) w =
           (fl, st1, w\<lparr>trace := trace w @ [Kbhit, Getch CHR '' ''] @ X\<rparr>)"
    using np by (simp add: mp3_body_def space_key_mp3[OF assms(2)] unpause d)
  moreover have "\<forall>w. mp3_body fp r t (q\<lparr>key := None\<rparr>) st w =
           (fl, st1, w\<lparr>trace := trace w @ Kbhit # X\<rparr>)"
    using np by (simp add: mp3_body_def poll_keys_def emit_trace mp3_decode_key d)
  ultimately show ?thesis by blast
qed

lemma snd_resume:
  assumes "playing st" "key q = Some CHR '' ''"
  shows "\<exists>fl st1 X.
     (\<forall>w. snd_body fp r t q (st\<lparr>is_paused := True\<rparr>) w =
           (fl, st1, w\<lparr>trace := trace w @ [Kbhit, Getch CHR '' ''] @ X\<rparr>)) \<and>
     (\<forall>w. snd_body fp r t (q\<lparr>key := None\<rparr>) st w = (fl, st1, w\<lparr>trace := trace w @ Kbhit # X\<rparr>))"
proof -
  from assms(1) have np: "\<not> is_paused st" by (simp add: playing_def)
  from snd_decode_appends[of fp t q st] obtain fl st1 X where
    d: "\<And>w. snd_decode fp t q st w = (fl, st1, w\<lparr>trace := trace w @ X\<rparr>)" by blast
  have "\<forall>w. snd_body fp r t q (st\<lparr>is_paused := True\<rparr>) w =
           (fl, st1, w\<lparr>trace := trace w @ [Kbhit, Getch CHR '' ''] @ X\<rparr>)"
    using np by (simp add: snd_body_decode space_key_snd[OF assms(2)] unpause d)
  moreover have "\<forall>w. snd_body fp r t (q\<lparr>key := None\<rparr>) st w =
           (fl, st1, w\<lparr>trace := trace w @ Kbhit # X\<rparr>)"
    using np by (simp add: snd_body_decode poll_keys_def emit_trace snd_decode_key d)
  ultimately show ?thesis by blast
qed

lemma pause_invisible:
  assumes obl: "\<And>e st. \<exists>fl st' evs. \<forall>w. B e st w = (fl, st', w\<lparr>trace := trace w @ evs\<rparr>)"
    and pause: "while_not_stopped B (p # idles @ q # rest) st w =
       while_not_stopped B (q # rest) (st\<lparr>is_paused := True\<rparr>) (w\<lparr>trace := trace w @ PE\<rparr>)"
    and quiet: "effects PE = []"
    and resume: "\<exists>fl st1 X.
       (\<forall>w. B q (st\<lparr>is_paused := True\<rparr>) w =
             (fl, st1, w\<lparr>trace := trace w @ [Kbhit, Getch CHR '' ''] @ X\<rparr>)) \<and>
       (\<forall>w. B q' st w = (fl, st1, w\<lparr>trace := trace w @ Kbhit # X\<rparr>))"
    and ns: "\<not> should_stop st"
  shows "outcome w (while_not_stopped B (p # idles @ q # rest) st w) =
         outcome w (while_not_stopped B (q' # rest) st w)"
proof -
  from resume obtain fl st1 X where
    rp: "\<And>w. B q (st\<lparr>is_paused := True\<rparr>) w =
             (fl, st1, w\<lparr>trace := trace w @ [Kbhit, Getch CHR '' ''] @ X\<rparr>)"
    and ru: "\<And>w. B q' st w = (fl, st1, w\<lparr>trace := trace w @ Kbhit # X\<rparr>)" by blast
  from while_not_stopped_appends[of B rest st1, OF obl] obtain r where
    r: "\<And>w. while_not_stopped B rest st1 w =
           map_option (\<lambda>(st', evs). (st', w\<lparr>trace := trace w @ evs\<rparr>)) r" by blast
  have k: "\<And>c Y. effects (Getch c # Y) = effects Y"
    "\<And>Y. effects (Kbhit # Y) = effects Y"
    by (simp_all add: effects_def keyboard_or_sleep_def)
  show ?thesis
  proof (cases fl)
    case Break
    with ns show ?thesis unfolding pause
      by (simp add: rp ru outcome_def added_def quiet k)
  next
    case Continue
    with ns show ?thesis unfolding pause
      by (cases r) (auto simp: rp ru r outcome_def added_def quiet k)
  qed
qed

text \<open>
  Claim C5. A pass that ends paused polls the keyboard, sleeps 100 ms and goes round
  again, with no decode, read or write event in between. When the pause key arrives in a
  playing session and the steps after it bring no key the handlers act on, the loop
  reaches the next step in the state it had before the pause, with only \<open>is_paused\<close>
  set and only polls and sleeps added to the trace; the pause key then gives back the
  state from before the pause and adds only its poll and its read to the trace. A run
  with such a pause ended by the pause key has the outcome of the run in which the pause
  never happened: the same final state, positions included, and the same calls to the
  decoder, the output and the display, in the same order.
\<close>

theorem pause_suspends_decoding:
  "(is_paused (fst (snd (mp3_body fp r t e st w))) \<longrightarrow>
      fst (mp3_body fp r t e st w) = Continue \<and>
      (\<exists>evs. trace (snd (snd (mp3_body fp r t e st w))) = trace w @ Kbhit # evs @ [Usleep 100000] \<and>
             (\<forall>ev\<in>set evs. \<not> decodes_or_writes ev))) \<and>
   (is_paused (fst (snd (snd_body fp r t e st w))) \<longrightarrow>
      fst (snd_body fp r t e st w) = Continue \<and>
      (\<exists>evs. trace (snd (snd (snd_body fp r t e st w))) = trace w @ Kbhit # evs @ [Usleep 100000] \<and>
             (\<forall>ev\<in>set evs. \<not> decodes_or_writes ev))) \<and>
   (playing st \<and> key p = Some CHR '' '' \<and> (\<forall>i\<in>set idles. quiet i) \<longrightarrow>
      while_not_stopped (mp3_body fp r t) (p # idles @ rest) st w =
        while_not_stopped (mp3_body fp r t) rest (st\<lparr>is_paused := True\<rparr>)
          (w\<lparr>trace := trace w @ [Kbhit, Getch CHR '' '', Usleep 100000] @
                                concat (map idle_events idles)\<rparr>) \<and>
      while_not_stopped (snd_body fp r t) (p # idles @ rest) st w =
        while_not_stopped (snd_body fp r t) rest (st\<lparr>is_paused := True\<rparr>)
          (w\<lparr>trace := trace w @ [Kbhit, Getch CHR '' '', Usleep 100000] @
                                concat (map idle_events idles)\<rparr>) \<and>
      poll_keys (mp3_key r t) p (st\<lparr>is_paused := True\<rparr>) w1 =
        (st, w1\<lparr>trace := trace w1 @ [Kbhit, Getch CHR '' '']\<rparr>) \<and>
      poll_keys (snd_key r ret) p (st\<lparr>is_paused := True\<rparr>) w1 =
        (st, w1\<lparr>trace := trace w1 @ [Kbhit, Getch CHR '' '']\<rparr>)) \<and>
   (playing st \<and> key p = Some CHR '' '' \<and> (\<forall>i\<in>set idles. quiet i) \<and>
    key q = Some CHR '' '' \<longrightarrow>
      outcome w (while_not_stopped (mp3_body fp r t) (p # idles @ q # rest) st w) =
        outcome w (while_not_stopped (mp3_body fp r t) (q\<lparr>key := None\<rparr> # rest) st w) \<and>
      outcome w (while_not_stopped (snd_body fp r t) (p # idles @ q # rest) st w) =
        outcome w (while_not_stopped (snd_body fp r t) (q\<lparr>key := None\<rparr> # rest) st w))"
proof (intro conjI impI)
  assume "is_paused (fst (snd (mp3_body fp r t e st w)))"
  then show "fst (mp3_body fp r t e st w) = Continue"
    "\<exists>evs. trace (snd (snd (mp3_body fp r t e st w))) = trace w @ Kbhit # evs @ [Usleep 100000] \<and>
           (\<forall>ev\<in>set evs. \<not> decodes_or_writes ev)"
    using mp3_paused_iteration[of fp r t e st w] by simp_all
next
  assume "is_paused (fst (snd (snd_body fp r t e st w)))"
  then show "fst (snd_body fp r t e st w) = Continue"
    "\<exists>evs. trace (snd (snd (snd_body fp r t e st w))) = trace w @ Kbhit # evs @ [Usleep 100000] \<and>
           (\<forall>ev\<in>set evs. \<not> decodes_or_writes ev)"
    using snd_paused_iteration[of fp r t e st w] by simp_all
next
  assume "playing st \<and> key p = Some CHR '' '' \<and> (\<forall>i\<in>set idles. quiet i)"
  then have h: "playing st" "key p = Some CHR '' ''" "\<forall>i\<in>set idles. quiet i" by simp_all
  from h(1) have np: "\<not> is_paused st" by (simp add: playing_def)
  show "while_not_stopped (mp3_body fp r t) (p # idles @ rest) st w =
        while_not_stopped (mp3_body fp r t) rest (st\<lparr>is_paused := True\<rparr>)
          (w\<lparr>trace := trace w @ [Kbhit, Getch CHR '' '', Usleep 100000] @
                                concat (map idle_events idles)\<rparr>)"
    by (rule mp3_pause_then_idle[OF h])
  show "while_not_stopped (snd_body fp r t) (p # idles @ rest) st w =
        while_not_stopped (snd_body fp r t) rest (st\<lparr>is_paused := True\<rparr>)
          (w\<lparr>trace := trace w @ [Kbhit, Getch CHR '' '', Usleep 100000] @
                                concat (map idle_events idles)\<rparr>)"
    by (rule snd_pause_then_idle[OF h])
  show "poll_keys (mp3_key r t) p (st\<lparr>is_paused := True\<rparr>) w1 =
        (st, w1\<lparr>trace := trace w1 @ [Kbhit, Getch CHR '' '']\<rparr>)"
    using np by (simp add: space_key_mp3[OF h(2)] unpause)
  show "poll_keys (snd_key r ret) p (st\<lparr>is_paused := True\<rparr>) w1 =
        (st, w1\<lparr>trace := trace w1 @ [Kbhit, Getch CHR '' '']\<rparr>)"
    using np by (simp add: space_key_snd[OF h(2)] unpause)
next
  assume "playing st \<and> key p = Some CHR '' '' \<and> (\<forall>i\<in>set idles. quiet i) \<and>
    key q = Some CHR '' ''"
  then have h: "playing st" "key p = Some CHR '' ''" "\<forall>i\<in>set idles. quiet i"
    and q: "key q = Some CHR '' ''" by simp_all
  from h(1) have ns: "\<not> should_stop st" by (simp add: playing_def)
  show "outcome w (while_not_stopped (mp3_body fp r t) (p # idles @ q # rest) st w) =
        outcome w (while_not_stopped (mp3_body fp r t) (q\<lparr>key := None\<rparr> # rest) st w)"
    by (rule pause_invisible[OF mp3_body_appends mp3_pause_then_idle[OF h] effects_pause
          mp3_resume[OF h(1) q] ns])
  show "outcome w (while_not_stopped (snd_body fp r t) (p # idles @ q # rest) st w) =
        outcome w (while_not_stopped (snd_body fp r t) (q\<lparr>key := None\<rparr> # rest) st w)"
    by (rule pause_invisible[OF snd_body_appends snd_pause_then_idle[OF h] effects_pause
          snd_resume[OF h(1) q] ns])
qed

text \<open>
  A paused pass in each backend, and a sample-coded run paused for two passes and then
  resumed: it reads and writes the one chunk and draws 22 percent, as the run without
  the pause does.
\<close>

theorem pause_suspends_decoding_witness:
  "fst (mp3_body fp_floor 44100 4410000 chunk (lstate_init\<lparr>is_paused := True\<rparr>)
         (fresh_world tty0 flags0)) = Continue \<and>
   fst (snd_body fp_floor 44100 4410000 chunk (lstate_init\<lparr>is_paused := True\<rparr>)
         (fresh_world tty0 flags0)) = Continue \<and>
   while_not_stopped (snd_body fp_floor 44100 4410000)
     (chunk\<lparr>key := Some CHR '' ''\<rparr> # [chunk, chunk\<lparr>key := Some CHR ''x''\<rparr>] @
      [chunk\<lparr>frames_read := 0\<rparr>]) lstate_init (fresh_world tty0 flags0) =
   while_not_stopped (snd_body fp_floor 44100 4410000) [chunk\<lparr>frames_read := 0\<rparr>]
     (lstate_init\<lparr>is_paused := True\<rparr>)
     ((fresh_world tty0 flags0)\<lparr>trace :=
        [Kbhit, Getch CHR '' '', Usleep 100000, Kbhit, Usleep 100000,
         Kbhit, Getch CHR ''x'', Usleep 100000]\<rparr>) \<and>
   poll_keys (mp3_key 44100 4410000) (chunk\<lparr>key := Some CHR '' ''\<rparr>)
     (lstate_init\<lparr>is_paused := True\<rparr>) (fresh_world tty0 flags0) =
     (lstate_init, (fresh_world tty0 flags0)\<lparr>trace := [Kbhit, Getch CHR '' '']\<rparr>) \<and>
   outcome (fresh_world tty0 flags0)
     (while_not_stopped (snd_body fp_floor 44100 4410000)
        (chunk\<lparr>key := Some CHR '' ''\<rparr> # [chunk, chunk\<lparr>key := Some CHR ''x''\<rparr>] @
         chunk\<lparr>key := Some CHR '' '', frames_read := 1000000\<rparr> # [chunk\<lparr>frames_read := 0\<rparr>])
        lstate_init (fresh_world tty0 flags0)) =
   Some (lstate_init\<lparr>frames_played := 1000000, current_frame_pos := 4096, last_percent := 22\<rparr>,
         (fresh_world tty0 flags0)\<lparr>trace :=
            [Sf_readf_short, Pa_simple_write, Sf_seek 0 SEEK_CUR, Progress_bar 5 22,
             Sf_readf_short]\<rparr>)"
proof -
  let ?w = "fresh_world tty0 flags0"
  let ?p = "chunk\<lparr>key := Some CHR '' ''\<rparr>"
  let ?q = "chunk\<lparr>key := Some CHR '' '', frames_read := 1000000\<rparr>"
  let ?idles = "[chunk, chunk\<lparr>key := Some CHR ''x''\<rparr>]"
  let ?rest = "[chunk\<lparr>frames_read := 0\<rparr>]"
  note T = pause_suspends_decoding[where fp = fp_floor and r = 44100 and t = 4410000
      and e = chunk and st = "lstate_init\<lparr>is_paused := True\<rparr>" and w = ?w]
  note U = pause_suspends_decoding[where fp = fp_floor and r = 44100 and t = 4410000
      and st = lstate_init and w = ?w and p = ?p and idles = ?idles and q = ?q
      and rest = ?rest and ?w1.0 = ?w]
  have a: "is_paused (fst (snd (mp3_body fp_floor 44100 4410000 chunk
             (lstate_init\<lparr>is_paused := True\<rparr>) ?w)))"
    by (simp add: loop_eval)
  have b: "is_paused (fst (snd (snd_body fp_floor 44100 4410000 chunk
             (lstate_init\<lparr>is_paused := True\<rparr>) ?w)))"
    by (simp add: loop_eval)
  have c: "playing lstate_init \<and> key ?p = Some CHR '' '' \<and> (\<forall>i\<in>set ?idles. quiet i)"
    by (simp add: playing_def lstate_init_def quiet_def chunk_def)
  have d: "playing lstate_init \<and> key ?p = Some CHR '' '' \<and> (\<forall>i\<in>set ?idles. quiet i) \<and>
      key ?q = Some CHR '' ''"
    by (simp add: playing_def lstate_init_def quiet_def chunk_def)
  have tr: "trace ?w @ [Kbhit, Getch CHR '' '', Usleep 100000] @ concat (map idle_events ?idles) =
        [Kbhit, Getch CHR '' '', Usleep 100000, Kbhit, Usleep 100000,
         Kbhit, Getch CHR ''x'', Usleep 100000]"
    by (simp add: fresh_world_def idle_events_def chunk_def)
  have tw: "trace ?w @ [Kbhit, Getch CHR '' ''] = [Kbhit, Getch CHR '' '']"
    by (simp add: fresh_world_def)
  have run: "outcome ?w (while_not_stopped (snd_body fp_floor 44100 4410000)
        (?q\<lparr>key := None\<rparr> # ?rest) lstate_init ?w) =
     Some (lstate_init\<lparr>frames_played := 1000000, current_frame_pos := 4096, last_percent := 22\<rparr>,
         ?w\<lparr>trace := [Sf_readf_short, Pa_simple_write, Sf_seek 0 SEEK_CUR, Progress_bar 5 22,
             Sf_readf_short]\<rparr>)"
    by (simp add: loop_eval outcome_def added_def effects_def keyboard_or_sleep_def)
  note V = U[THEN conjunct2, THEN conjunct2, THEN conjunct2, THEN mp, OF d, THEN conjunct2]
  from T[THEN conjunct1, THEN mp, OF a, THEN conjunct1]
       T[THEN conjunct2, THEN conjunct1, THEN mp, OF b, THEN conjunct1]
       U[THEN conjunct2, THEN conjunct2, THEN conjunct1, THEN mp, OF c, THEN conjunct1]
       U[THEN conjunct2, THEN conjunct2, THEN conjunct1, THEN mp, OF c, THEN conjunct2,
         THEN conjunct1]
       U[THEN conjunct2, THEN conjunct2, THEN conjunct1, THEN mp, OF c, THEN conjunct2,
         THEN conjunct2, THEN conjunct1]
       V[unfolded run]
  show ?thesis unfolding tr tw by (intro conjI) assumption+
qed

end
